theory Spec2Isabelle
  imports Main "HOL-Library.AList"
begin

section \<open>Characters and string primitives used by the header normalizer\<close>

text \<open>
  Strings are lists of \<^typ>\<open>char\<close>, read as the code points 0 to 255. The character
  classes are those of Python 3 on these code points: \<open>\w\<close> is \<open>[A-Za-z0-9_]\<close> and
  the alphanumeric characters of the upper half (\<open>str.isalnum\<close>), \<open>\s\<close> is tab, line
  feed, vertical tab, form feed, carriage return, the separators 28 to 31, the blank,
  and the code points 133 and 160; the classes \<open>[A-Z]\<close> and \<open>[a-z0-9]\<close> are the ASCII
  ranges; \<open>str.lower\<close> moves \<open>A-Z\<close> and the capital letters 192 to 214 and 216 to 222
  up by 32.
\<close>

definition code :: "char \<Rightarrow> nat" where
  "code c = of_char c"

definition is_upper :: "char \<Rightarrow> bool" where
  "is_upper c = (65 \<le> code c \<and> code c \<le> 90)"

definition is_lower :: "char \<Rightarrow> bool" where
  "is_lower c = (97 \<le> code c \<and> code c \<le> 122)"

definition is_digit :: "char \<Rightarrow> bool" where
  "is_digit c = (48 \<le> code c \<and> code c \<le> 57)"

definition is_high_alnum :: "char \<Rightarrow> bool" where
  "is_high_alnum c =
     (code c = 170 \<or> (178 \<le> code c \<and> code c \<le> 179) \<or> code c = 181
      \<or> (185 \<le> code c \<and> code c \<le> 186) \<or> (188 \<le> code c \<and> code c \<le> 190)
      \<or> (192 \<le> code c \<and> code c \<le> 214) \<or> (216 \<le> code c \<and> code c \<le> 246)
      \<or> 248 \<le> code c)"

definition is_alnum :: "char \<Rightarrow> bool" where
  "is_alnum c = (is_upper c \<or> is_lower c \<or> is_digit c \<or> is_high_alnum c)"

definition is_word :: "char \<Rightarrow> bool" where
  "is_word c = (is_alnum c \<or> c = CHR ''_'')"

definition is_space :: "char \<Rightarrow> bool" where
  "is_space c =
     ((9 \<le> code c \<and> code c \<le> 13) \<or> (28 \<le> code c \<and> code c \<le> 32)
      \<or> code c = 133 \<or> code c = 160)"

definition lower_char :: "char \<Rightarrow> char" where
  "lower_char c =
     (if is_upper c \<or> (192 \<le> code c \<and> code c \<le> 214) \<or> (216 \<le> code c \<and> code c \<le> 222)
      then char_of (code c + 32) else c)"

text \<open>\<open>re.sub(p+, r, s)\<close> for a character class \<open>p\<close>: every maximal run of
  characters of the class is replaced by the single character \<open>r\<close>.\<close>

function sub_runs :: "(char \<Rightarrow> bool) \<Rightarrow> char \<Rightarrow> string \<Rightarrow> string" where
  "sub_runs p r [] = []"
| "sub_runs p r (c # cs) =
     (if p c then r # sub_runs p r (dropWhile p cs) else c # sub_runs p r cs)"
  by pat_completeness auto
termination
  by (relation "measure (\<lambda>(p, r, s). length s)")
     (auto simp: le_imp_less_Suc length_dropWhile_le)

text \<open>\<open>str.strip()\<close>: whitespace removed at both ends.\<close>

definition strip :: "string \<Rightarrow> string" where
  "strip s = rev (dropWhile is_space (rev (dropWhile is_space s)))"

text \<open>\<open>re.sub(r"(?<=[a-z0-9])([A-Z])", r" \1", s)\<close>: a blank is inserted before each
  upper-case letter whose predecessor in the subject is a lower-case letter or a digit.\<close>

fun split_camel :: "string \<Rightarrow> string" where
  "split_camel (a # b # cs) =
     (if (is_lower a \<or> is_digit a) \<and> is_upper b
      then a # CHR '' '' # split_camel (b # cs)
      else a # split_camel (b # cs))"
| "split_camel cs = cs"

text \<open>\<open>s.split(d)\<close> with an explicit one-character separator: empty pieces are kept.\<close>

fun split_on :: "char \<Rightarrow> string \<Rightarrow> string list" where
  "split_on d [] = [[]]"
| "split_on d (c # cs) =
     (if c = d then [] # split_on d cs
      else (case split_on d cs of [] \<Rightarrow> [[c]] | p # ps \<Rightarrow> (c # p) # ps))"

text \<open>\<open>sep.join(parts)\<close>.\<close>

fun join :: "string \<Rightarrow> string list \<Rightarrow> string" where
  "join sep [] = []"
| "join sep [p] = p"
| "join sep (p # q # ps) = p @ sep @ join sep (q # ps)"

section \<open>Header normalizer\<close>

definition sanitize_part :: "string \<Rightarrow> string" where
  "sanitize_part p = map lower_char (sub_runs (\<lambda>c. c = CHR ''_'' \<or> is_space c) CHR ''_'' p)"

definition to_snake_case :: "string option \<Rightarrow> string" where
  "to_snake_case s0 =
     (case s0 of
        None \<Rightarrow> []
      | Some s \<Rightarrow>
          let s1 = map (\<lambda>c. if is_word c \<or> is_space c then c else CHR '' '') s;
              s2 = strip (sub_runs is_space CHR '' '' s1);
              s3 = split_camel s2;
              parts = split_on CHR '' '' s3;
              parts' = map sanitize_part (filter (\<lambda>p. p \<noteq> []) parts)
          in join ''_'' parts')"

text \<open>Auxiliary notions for stating properties of the normalizer: the input with its
  symbols blanked, the pieces that survive the \<open>if p != ""\<close> filter, and the three
  shapes of stray underscore.\<close>

definition blank_symbols :: "string \<Rightarrow> string" where
  "blank_symbols s = map (\<lambda>c. if is_word c \<or> is_space c then c else CHR '' '') s"

definition raw_parts :: "string \<Rightarrow> string list" where
  "raw_parts s =
     filter (\<lambda>p. p \<noteq> [])
       (split_on CHR '' '' (split_camel (strip (sub_runs is_space CHR '' '' (blank_symbols s)))))"

fun leading_underscore :: "string \<Rightarrow> bool" where
  "leading_underscore [] = False"
| "leading_underscore (c # cs) = (c = CHR ''_'')"

definition trailing_underscore :: "string \<Rightarrow> bool" where
  "trailing_underscore s = leading_underscore (rev s)"

fun doubled_underscore :: "string \<Rightarrow> bool" where
  "doubled_underscore (a # b # cs) =
     ((a = CHR ''_'' \<and> b = CHR ''_'') \<or> doubled_underscore (b # cs))"
| "doubled_underscore [a] = False"
| "doubled_underscore [] = False"

text \<open>Every underscore of a string stands immediately between two word characters:
  each neighbouring pair is checked, the string being read between two blanks.\<close>

definition link :: "char \<Rightarrow> char \<Rightarrow> bool" where
  "link a b = ((a = CHR ''_'' \<longrightarrow> is_word b) \<and> (b = CHR ''_'' \<longrightarrow> is_word a))"

fun enclosed_between :: "char \<Rightarrow> string \<Rightarrow> char \<Rightarrow> bool" where
  "enclosed_between p [] q = link p q"
| "enclosed_between p (c # cs) q = (link p c \<and> enclosed_between c cs q)"

definition underscores_enclosed :: "string \<Rightarrow> bool" where
  "underscores_enclosed s = enclosed_between CHR '' '' s CHR '' ''"

section \<open>Exceptions\<close>

datatype exn =
    ClientError
  | TimeoutError
  | ClientResponseError nat
  | ClientPayloadError
  | OSError
  | FileNotFoundError
  | ValueError
  | ParserError
  | JSONDecodeError

section \<open>Paths\<close>

text \<open>
  A \<open>pathlib\<close> path of the POSIX flavour: whether it is anchored at the root, and its
  components. Parsing a string drops empty components and \<open>.\<close> components.
\<close>

datatype path = Path (is_absolute: bool) (parts: "string list")

definition parse_path :: "string \<Rightarrow> path" where
  "parse_path s =
     Path (case s of [] \<Rightarrow> False | c # _ \<Rightarrow> c = CHR ''/'')
          (filter (\<lambda>p. p \<noteq> [] \<and> p \<noteq> ''.'') (split_on CHR ''/'' s))"

text \<open>\<open>p / s\<close>: an absolute right operand replaces the left one.\<close>

definition path_join :: "path \<Rightarrow> string \<Rightarrow> path" where
  "path_join p s =
     (let q = parse_path s
      in if is_absolute q then q else Path (is_absolute p) (parts p @ parts q))"

definition path_name :: "path \<Rightarrow> string" where
  "path_name p = (case parts p of [] \<Rightarrow> [] | _ \<Rightarrow> last (parts p))"

definition path_parent :: "path \<Rightarrow> path" where
  "path_parent p = Path (is_absolute p) (butlast (parts p))"

text \<open>\<open>name.rfind(c)\<close>: the last index of \<open>c\<close>, if any.\<close>

definition rfind :: "char \<Rightarrow> string \<Rightarrow> nat option" where
  "rfind c s =
     (case filter (\<lambda>i. s ! i = c) (rev [0..<length s]) of [] \<Rightarrow> None | i # _ \<Rightarrow> Some i)"

definition name_suffix :: "string \<Rightarrow> string" where
  "name_suffix nm =
     (case rfind CHR ''.'' nm of
        None \<Rightarrow> []
      | Some i \<Rightarrow> if 0 < i \<and> i + 1 < length nm then drop i nm else [])"

text \<open>\<open>p.with_suffix(suf)\<close> for a well-formed suffix such as \<open>.tmp\<close>: it raises
  \<open>ValueError\<close> on a path with an empty name; otherwise the old suffix of the name, if
  any, is replaced.\<close>

definition with_suffix :: "path \<Rightarrow> string \<Rightarrow> exn + path" where
  "with_suffix p suf =
     (let nm = path_name p
      in if nm = [] then Inl ValueError
         else
           let old = name_suffix nm;
               nm' = (if old = [] then nm @ suf else take (length nm - length old) nm @ suf)
           in Inr (Path (is_absolute p) (butlast (parts p) @ [nm'])))"

definition OUTPUT_DIR :: path where
  "OUTPUT_DIR = Path False [''data'']"

definition METADATA_FILE :: path where
  "METADATA_FILE = Path False [''metadata.json'']"

section \<open>Data model\<close>

record ledger_entry =
  e_url :: string
  e_filename :: string
  e_last_modified :: "string option"
  e_etag :: "string option"
  e_downloaded_at :: string
  e_rows :: nat
  e_cols :: nat

text \<open>The ledger is the \<open>metadata\<close> dictionary: keys in insertion order, looked up with
  \<^const>\<open>map_of\<close>, assigned with \<^const>\<open>AList.update\<close> (an existing key keeps its
  place, a new key goes to the end, as in a Python \<open>dict\<close>).\<close>

type_synonym ledger = "(string \<times> ledger_entry) list"

record dist =
  d_url :: string
  d_filename :: "string option"
  d_last_modified :: "string option"
  d_etag :: "string option"

record validators =
  v_last_modified :: "string option"
  v_etag :: "string option"

record dataframe =
  columns :: "string list"
  data_rows :: "string list list"

section \<open>JSON text of the ledger\<close>

text \<open>
  \<open>json.dumps(meta, indent=2)\<close> for ledgers and \<open>json.loads\<close>. The writer gives the text
  Python writes: members one per line, indented by two blanks per level, \<open>{}\<close> for an
  empty dictionary, strings with the escapes of \<open>ensure_ascii\<close> (so the text is pure
  ASCII and its UTF-8 encoding changes nothing), \<open>null\<close> for \<open>None\<close>.

  The reader is the scanner of the \<open>json\<close> module. It returns the value of any JSON
  text: \<open>None\<close>, a truth value, an integer, a float (kept as its literal, with \<open>NaN\<close>,
  \<open>Infinity\<close> and \<open>-Infinity\<close>), a string (as its code points, since an escape can name any
  code point, a surrogate pair giving one code point), a list, or a dictionary, where
  the last value wins for a repeated key and the key keeps its first place. White
  space between tokens is blank, tab, line feed and carriage return; a control
  character inside a string, an unknown escape, a leading zero followed by a digit,
  a trailing comma and text after the value are decoding errors. The fuel bounds the
  nesting depth and the number of members of one container by the length of the text.
  The limits of the interpreter on the nesting depth and on the number of digits of an
  integer are left out.
\<close>

datatype scalar = SNull | SInt nat | SStr string

datatype json =
    JNull
  | JBool bool
  | JInt int
  | JFloat string
  | JString "nat list"
  | JArray "json list"
  | JObject "(nat list \<times> json) list"

definition hex_digit :: "nat \<Rightarrow> char" where
  "hex_digit n = ''0123456789abcdef'' ! n"

definition hex_value :: "char \<Rightarrow> nat option" where
  "hex_value c =
     (if is_digit c then Some (code c - 48)
      else if 97 \<le> code c \<and> code c \<le> 102 then Some (code c - 87)
      else if 65 \<le> code c \<and> code c \<le> 70 then Some (code c - 55)
      else None)"

definition escape_char :: "char \<Rightarrow> string" where
  "escape_char c =
     (if c = CHR 0x22 then [CHR 0x5C, CHR 0x22]
      else if c = CHR 0x5C then [CHR 0x5C, CHR 0x5C]
      else if c = CHR 0x0A then [CHR 0x5C, CHR ''n'']
      else if c = CHR 0x0D then [CHR 0x5C, CHR ''r'']
      else if c = CHR 0x09 then [CHR 0x5C, CHR ''t'']
      else if c = CHR 0x0C then [CHR 0x5C, CHR ''f'']
      else if c = CHR 0x08 then [CHR 0x5C, CHR ''b'']
      else if 32 \<le> code c \<and> code c \<le> 126 then [c]
      else [CHR 0x5C, CHR ''u'', CHR ''0'', CHR ''0'',
            hex_digit (code c div 16), hex_digit (code c mod 16)])"

definition json_string :: "string \<Rightarrow> string" where
  "json_string s = [CHR 0x22] @ concat (map escape_char s) @ [CHR 0x22]"

definition add_char :: "nat \<Rightarrow> (nat list \<times> string) option \<Rightarrow> (nat list \<times> string) option" where
  "add_char c r = (case r of None \<Rightarrow> None | Some (s, rest) \<Rightarrow> Some (c # s, rest))"

text \<open>Four hexadecimal digits; and the escape of a low surrogate, which joins the high
  surrogate before it.\<close>

definition hex4 :: "string \<Rightarrow> (nat \<times> string) option" where
  "hex4 s =
     (case s of
        h1 # h2 # h3 # h4 # r \<Rightarrow>
          (case (hex_value h1, hex_value h2, hex_value h3, hex_value h4) of
             (Some a, Some b, Some c, Some d) \<Rightarrow> Some (((a * 16 + b) * 16 + c) * 16 + d, r)
           | _ \<Rightarrow> None)
      | _ \<Rightarrow> None)"

definition low_surrogate :: "string \<Rightarrow> (nat \<times> string) option" where
  "low_surrogate s =
     (case s of
        b # u # r \<Rightarrow>
          if b = CHR 0x5C \<and> u = CHR ''u'' then
            (case hex4 r of
               None \<Rightarrow> None
             | Some (lo, r2) \<Rightarrow> if 0xDC00 \<le> lo \<and> lo \<le> 0xDFFF then Some (lo, r2) else None)
          else None
      | _ \<Rightarrow> None)"

text \<open>The characters of a string after its opening quote, up to the closing quote.\<close>

function scan_string :: "string \<Rightarrow> (nat list \<times> string) option" where
  "scan_string [] = None"
| "scan_string (c # cs) =
     (if c = CHR 0x22 then Some ([], cs)
      else if c = CHR 0x5C then
        (case cs of
           [] \<Rightarrow> None
         | e # r \<Rightarrow>
             if e = CHR 0x22 then add_char 0x22 (scan_string r)
             else if e = CHR 0x5C then add_char 0x5C (scan_string r)
             else if e = CHR ''/'' then add_char 0x2F (scan_string r)
             else if e = CHR ''b'' then add_char 0x08 (scan_string r)
             else if e = CHR ''f'' then add_char 0x0C (scan_string r)
             else if e = CHR ''n'' then add_char 0x0A (scan_string r)
             else if e = CHR ''r'' then add_char 0x0D (scan_string r)
             else if e = CHR ''t'' then add_char 0x09 (scan_string r)
             else if e = CHR ''u'' then
               (case hex4 r of
                  None \<Rightarrow> None
                | Some (hi, r1) \<Rightarrow>
                    if 0xD800 \<le> hi \<and> hi \<le> 0xDBFF then
                      (case low_surrogate r1 of
                         Some (lo, r2) \<Rightarrow>
                           add_char (0x10000 + (hi - 0xD800) * 0x400 + (lo - 0xDC00)) (scan_string r2)
                       | None \<Rightarrow> add_char hi (scan_string r1))
                    else add_char hi (scan_string r1))
             else None)
      else if code c < 32 then None
      else add_char (code c) (scan_string cs))"
  by pat_completeness auto
termination
  by (relation "measure length")
     (auto simp: hex4_def low_surrogate_def split: list.splits option.splits if_splits)

function show_nat :: "nat \<Rightarrow> string" where
  "show_nat n =
     (if n < 10 then [char_of (48 + n)] else show_nat (n div 10) @ [char_of (48 + n mod 10)])"
  by pat_completeness auto
termination
  by (relation "measure (\<lambda>n. n)") auto

declare show_nat.simps [simp del]

text \<open>A number: an optional minus, the integer part (a single \<open>0\<close> or a digit from 1 to 9
  and the digits after it), an optional fraction (a point and at least one digit), an
  optional exponent (\<open>e\<close> or \<open>E\<close>, an optional sign, at least one digit). Without
  fraction and exponent it is an integer, else a float.\<close>

definition digits_value :: "string \<Rightarrow> nat" where
  "digits_value ds = foldl (\<lambda>a c. 10 * a + (code c - 48)) 0 ds"

definition span_int :: "string \<Rightarrow> (string \<times> string) option" where
  "span_int s =
     (case s of
        [] \<Rightarrow> None
      | c # r \<Rightarrow>
          if c = CHR ''0'' then Some ([c], r)
          else if is_digit c then Some (c # takeWhile is_digit r, dropWhile is_digit r)
          else None)"

definition span_frac :: "string \<Rightarrow> string \<times> string" where
  "span_frac s =
     (case s of
        p # d # r \<Rightarrow>
          if p = CHR ''.'' \<and> is_digit d then (p # d # takeWhile is_digit r, dropWhile is_digit r)
          else ([], s)
      | _ \<Rightarrow> ([], s))"

definition span_exp :: "string \<Rightarrow> string \<times> string" where
  "span_exp s =
     (case s of
        [] \<Rightarrow> ([], s)
      | e # r \<Rightarrow>
          if e = CHR ''e'' \<or> e = CHR ''E'' then
            (let (sign, r1) =
                   (case r of
                      [] \<Rightarrow> ([], r)
                    | g # r' \<Rightarrow> if g = CHR ''-'' \<or> g = CHR ''+'' then ([g], r') else ([], r))
             in if takeWhile is_digit r1 = [] then ([], s)
                else (e # sign @ takeWhile is_digit r1, dropWhile is_digit r1))
          else ([], s))"

definition scan_number :: "string \<Rightarrow> (json \<times> string) option" where
  "scan_number s =
     (let (sign, s1) =
            (case s of [] \<Rightarrow> ([], s) | c # r \<Rightarrow> if c = CHR ''-'' then ([c], r) else ([], s))
      in case span_int s1 of
           None \<Rightarrow> None
         | Some (ds, s2) \<Rightarrow>
             let (frac, s3) = span_frac s2;
                 (ex, s4) = span_exp s3
             in if frac = [] \<and> ex = []
                then Some (JInt (if sign = [] then int (digits_value ds)
                                 else - int (digits_value ds)), s4)
                else Some (JFloat (sign @ ds @ frac @ ex), s4))"

definition is_json_space :: "char \<Rightarrow> bool" where
  "is_json_space c = (c = CHR '' '' \<or> c = CHR 0x09 \<or> c = CHR 0x0A \<or> c = CHR 0x0D)"

definition skip_ws :: "string \<Rightarrow> string" where
  "skip_ws s = dropWhile is_json_space s"

definition show_scalar :: "scalar \<Rightarrow> string" where
  "show_scalar v = (case v of SNull \<Rightarrow> ''null'' | SInt n \<Rightarrow> show_nat n | SStr s \<Rightarrow> json_string s)"

fun show_members :: "string \<Rightarrow> string \<Rightarrow> ('v \<Rightarrow> string) \<Rightarrow> (string \<times> 'v) list \<Rightarrow> string" where
  "show_members ind cl sv [] = []"
| "show_members ind cl sv [(k, v)] = json_string k @ '': '' @ sv v @ [CHR 0x0A] @ cl @ ''}''"
| "show_members ind cl sv ((k, v) # m # ms) =
     json_string k @ '': '' @ sv v @ '','' @ [CHR 0x0A] @ ind @ show_members ind cl sv (m # ms)"

definition show_object :: "string \<Rightarrow> string \<Rightarrow> ('v \<Rightarrow> string) \<Rightarrow> (string \<times> 'v) list \<Rightarrow> string" where
  "show_object ind cl sv ms =
     (if ms = [] then ''{}'' else ''{'' @ [CHR 0x0A] @ ind @ show_members ind cl sv ms)"

definition expect :: "char \<Rightarrow> string \<Rightarrow> string option" where
  "expect c s = (case s of [] \<Rightarrow> None | x # r \<Rightarrow> if x = c then Some r else None)"

text \<open>The members of a dictionary after its opening brace and the elements of a list
  after its opening bracket, with the scanner \<open>pv\<close> for a value.\<close>

fun scan_members ::
  "(string \<Rightarrow> ('v \<times> string) option) \<Rightarrow> nat \<Rightarrow> string \<Rightarrow> ((nat list \<times> 'v) list \<times> string) option" where
  "scan_members pv 0 s = None"
| "scan_members pv (Suc fuel) s =
     (case expect CHR 0x22 s of
        None \<Rightarrow> None
      | Some s1 \<Rightarrow>
          (case scan_string s1 of
             None \<Rightarrow> None
           | Some (k, s2) \<Rightarrow>
               (case expect CHR '':'' (skip_ws s2) of
                  None \<Rightarrow> None
                | Some s3 \<Rightarrow>
                    (case pv (skip_ws s3) of
                       None \<Rightarrow> None
                     | Some (v, s4) \<Rightarrow>
                         (case skip_ws s4 of
                            [] \<Rightarrow> None
                          | c # s5 \<Rightarrow>
                              if c = CHR '','' then
                                (case scan_members pv fuel (skip_ws s5) of
                                   None \<Rightarrow> None
                                 | Some (ms, r) \<Rightarrow> Some ((k, v) # ms, r))
                              else if c = CHR ''}'' then Some ([(k, v)], s5)
                              else None)))))"

definition scan_object ::
  "(string \<Rightarrow> ('v \<times> string) option) \<Rightarrow> nat \<Rightarrow> string \<Rightarrow> ((nat list \<times> 'v) list \<times> string) option" where
  "scan_object pv fuel s =
     (case expect CHR ''{'' s of
        None \<Rightarrow> None
      | Some s1 \<Rightarrow>
          (case expect CHR ''}'' (skip_ws s1) of
             Some r \<Rightarrow> Some ([], r)
           | None \<Rightarrow> scan_members pv fuel (skip_ws s1)))"

fun scan_elements ::
  "(string \<Rightarrow> ('v \<times> string) option) \<Rightarrow> nat \<Rightarrow> string \<Rightarrow> ('v list \<times> string) option" where
  "scan_elements pv 0 s = None"
| "scan_elements pv (Suc fuel) s =
     (case pv s of
        None \<Rightarrow> None
      | Some (v, s1) \<Rightarrow>
          (case skip_ws s1 of
             [] \<Rightarrow> None
           | c # s2 \<Rightarrow>
               if c = CHR '','' then
                 (case scan_elements pv fuel (skip_ws s2) of
                    None \<Rightarrow> None
                  | Some (vs, r) \<Rightarrow> Some (v # vs, r))
               else if c = CHR '']'' then Some ([v], s2)
               else None))"

definition scan_array ::
  "(string \<Rightarrow> ('v \<times> string) option) \<Rightarrow> nat \<Rightarrow> string \<Rightarrow> ('v list \<times> string) option" where
  "scan_array pv fuel s =
     (case expect CHR ''['' s of
        None \<Rightarrow> None
      | Some s1 \<Rightarrow>
          (case expect CHR '']'' (skip_ws s1) of
             Some r \<Rightarrow> Some ([], r)
           | None \<Rightarrow> scan_elements pv fuel (skip_ws s1)))"

text \<open>A dictionary from its members in order of appearance.\<close>

definition dict_of :: "('k \<times> 'v) list \<Rightarrow> ('k \<times> 'v) list" where
  "dict_of ps = foldl (\<lambda>acc (k, v). AList.update k v acc) [] ps"

primrec scan_value :: "nat \<Rightarrow> string \<Rightarrow> (json \<times> string) option" where
  "scan_value 0 s = None"
| "scan_value (Suc fuel) s =
     (case s of
        [] \<Rightarrow> None
      | c # cs \<Rightarrow>
          if c = CHR 0x22 then
            (case scan_string cs of None \<Rightarrow> None | Some (x, r) \<Rightarrow> Some (JString x, r))
          else if c = CHR ''{'' then
            (case scan_object (scan_value fuel) (length s) s of
               None \<Rightarrow> None
             | Some (ms, r) \<Rightarrow> Some (JObject (dict_of ms), r))
          else if c = CHR ''['' then
            (case scan_array (scan_value fuel) (length s) s of
               None \<Rightarrow> None
             | Some (vs, r) \<Rightarrow> Some (JArray vs, r))
          else if take 4 s = ''null'' then Some (JNull, drop 4 s)
          else if take 4 s = ''true'' then Some (JBool True, drop 4 s)
          else if take 5 s = ''false'' then Some (JBool False, drop 5 s)
          else if take 3 s = ''NaN'' then Some (JFloat ''NaN'', drop 3 s)
          else if take 8 s = ''Infinity'' then Some (JFloat ''Infinity'', drop 8 s)
          else if take 9 s = ''-Infinity'' then Some (JFloat ''-Infinity'', drop 9 s)
          else scan_number s)"

definition json_loads :: "string \<Rightarrow> exn + json" where
  "json_loads s =
     (case scan_value (Suc (length s)) (skip_ws s) of
        None \<Rightarrow> Inl JSONDecodeError
      | Some (v, rest) \<Rightarrow> if skip_ws rest = [] then Inr v else Inl JSONDecodeError)"

text \<open>The dictionary that a ledger is: a string as its code points, the entry as the
  dictionary assigned to \<open>metadata[key]\<close>.\<close>

definition ustr :: "string \<Rightarrow> nat list" where
  "ustr s = map code s"

definition opt_scalar :: "string option \<Rightarrow> scalar" where
  "opt_scalar v = (case v of None \<Rightarrow> SNull | Some s \<Rightarrow> SStr s)"

definition entry_fields :: "ledger_entry \<Rightarrow> (string \<times> scalar) list" where
  "entry_fields en =
     [(''url'', SStr (e_url en)),
      (''filename'', SStr (e_filename en)),
      (''last_modified'', opt_scalar (e_last_modified en)),
      (''etag'', opt_scalar (e_etag en)),
      (''downloaded_at'', SStr (e_downloaded_at en)),
      (''rows'', SInt (e_rows en)),
      (''cols'', SInt (e_cols en))]"

definition scalar_json :: "scalar \<Rightarrow> json" where
  "scalar_json v =
     (case v of SNull \<Rightarrow> JNull | SInt n \<Rightarrow> JInt (int n) | SStr s \<Rightarrow> JString (ustr s))"

definition entry_json :: "ledger_entry \<Rightarrow> json" where
  "entry_json en = JObject (map (\<lambda>(k, v). (ustr k, scalar_json v)) (entry_fields en))"

definition ledger_json :: "ledger \<Rightarrow> json" where
  "ledger_json meta = JObject (map (\<lambda>(k, en). (ustr k, entry_json en)) meta)"

definition json_dumps :: "ledger \<Rightarrow> string" where
  "json_dumps meta =
     show_object ''  '' [] (show_object ''    '' ''  '' show_scalar)
       (map (\<lambda>(k, en). (k, entry_fields en)) meta)"

text \<open>What may follow a value in the text of a ledger: a comma or a line feed.\<close>

definition follows :: "string \<Rightarrow> bool" where
  "follows t = (t \<noteq> [] \<and> (hd t = CHR '','' \<or> hd t = CHR 0x0A))"

section \<open>The environment: network, file system faults, pandas, clock\<close>

datatype request = HEAD string | GET_limit1 string | GET string

text \<open>A response: status, header lookup (\<open>resp.headers.get\<close>), the body chunks that
  arrive, and whether the stream ends normally after them (\<open>False\<close>: the transfer is
  interrupted after the chunks listed).\<close>

record response =
  status :: nat
  header :: "string \<Rightarrow> string option"
  chunks :: "string list"
  complete :: bool

record env =
  net :: "request \<Rightarrow> exn + response"
  mkdir_fails :: "path \<Rightarrow> bool"
  open_fails :: "path \<Rightarrow> bool"
  replace_fails :: "path \<Rightarrow> bool"
  unlink_fails :: "path \<Rightarrow> bool"
  read_csv :: "string \<Rightarrow> exn + dataframe"
  read_csv_utf8 :: "string \<Rightarrow> exn + dataframe"
  to_csv :: "dataframe \<Rightarrow> exn + string"
  utcnow :: string

text \<open>The mutable world outside the ledger: file contents by path, and the requests
  sent so far, oldest first.\<close>

record world =
  files :: "path \<rightharpoonup> string"
  requests :: "request list"

definition send :: "request \<Rightarrow> world \<Rightarrow> world" where
  "send r w = w\<lparr>requests := requests w @ [r]\<rparr>"

section \<open>Freshness ledger persistence\<close>

text \<open>\<open>load_metadata\<close> returns what \<open>json.loads\<close> makes of the text of the file, whatever
  value that is, and the empty dictionary when the file is missing or its text does
  not parse.\<close>

definition load_metadata :: "world \<Rightarrow> json" where
  "load_metadata w =
     (case files w METADATA_FILE of
        Some text \<Rightarrow> (case json_loads text of Inr v \<Rightarrow> v | Inl e \<Rightarrow> JObject [])
      | None \<Rightarrow> JObject [])"

definition save_metadata :: "env \<Rightarrow> ledger \<Rightarrow> world \<Rightarrow> (exn + unit) \<times> world" where
  "save_metadata ev meta w =
     (if open_fails ev METADATA_FILE then (Inl OSError, w)
      else (Inr (), w\<lparr>files := (files w)(METADATA_FILE \<mapsto> json_dumps meta)\<rparr>))"

section \<open>Header renaming of a data frame\<close>

definition headers_to_snakecase_df :: "dataframe \<Rightarrow> dataframe" where
  "headers_to_snakecase_df df = df\<lparr>columns := map (\<lambda>col. to_snake_case (Some col)) (columns df)\<rparr>"

section \<open>Conditional fetch validator\<close>

text \<open>Python truthiness of an optional string, and \<open>a or b\<close>.\<close>

definition truthy :: "string option \<Rightarrow> bool" where
  "truthy v = (case v of None \<Rightarrow> False | Some s \<Rightarrow> s \<noteq> [])"

definition py_or :: "string option \<Rightarrow> string option \<Rightarrow> string option" where
  "py_or a b = (if truthy a then a else b)"

definition response_info :: "response \<Rightarrow> validators" where
  "response_info resp =
     \<lparr>v_last_modified = py_or (header resp ''Last-Modified'') (header resp ''last-modified''),
      v_etag = py_or (header resp ''ETag'') (header resp ''etag'')\<rparr>"

definition head_info :: "env \<Rightarrow> string \<Rightarrow> world \<Rightarrow> (exn + validators) \<times> world" where
  "head_info ev url w =
     (case net ev (HEAD url) of
        Inr resp \<Rightarrow> (Inr (response_info resp), send (HEAD url) w)
      | Inl e \<Rightarrow>
          (case net ev (GET_limit1 url) of
             Inr resp \<Rightarrow> (Inr (response_info resp), send (GET_limit1 url) (send (HEAD url) w))
           | Inl e' \<Rightarrow>
               (Inr \<lparr>v_last_modified = None, v_etag = None\<rparr>,
                send (GET_limit1 url) (send (HEAD url) w))))"

section \<open>Download pipeline\<close>

text \<open>The loop \<open>async for chunk in ...: if chunk: f.write(chunk)\<close>.\<close>

definition write_chunks :: "string list \<Rightarrow> string" where
  "write_chunks cs = foldl (\<lambda>acc chunk. if chunk \<noteq> [] then acc @ chunk else acc) [] cs"

text \<open>\<open>tmp.replace(dest)\<close>: one rename; renaming a file onto itself changes nothing.\<close>

definition replace_file :: "path \<Rightarrow> path \<Rightarrow> (path \<rightharpoonup> string) \<Rightarrow> (path \<rightharpoonup> string)" where
  "replace_file tmp dest fs = (if tmp = dest then fs else (fs(dest := fs tmp))(tmp := None))"

text \<open>The body of the \<open>try\<close> in \<open>download_csv\<close>.\<close>

definition download_body :: "env \<Rightarrow> string \<Rightarrow> path \<Rightarrow> path \<Rightarrow> world \<Rightarrow> (exn + unit) \<times> world" where
  "download_body ev url dest tmp w =
     (let w0 = send (GET url) w
      in case net ev (GET url) of
           Inl e \<Rightarrow> (Inl e, w0)
         | Inr resp \<Rightarrow>
             if 400 \<le> status resp then (Inl (ClientResponseError (status resp)), w0)
             else if open_fails ev tmp then (Inl OSError, w0)
             else
               let w1 = w0\<lparr>files := (files w0)(tmp \<mapsto> write_chunks (chunks resp))\<rparr>
               in if \<not> complete resp then (Inl ClientPayloadError, w1)
                  else if replace_fails ev tmp then (Inl OSError, w1)
                  else (Inr (), w1\<lparr>files := replace_file tmp dest (files w1)\<rparr>))"

text \<open>The \<open>finally\<close> clause: the temporary file, if it exists, is unlinked, and a failure
  to unlink is swallowed.\<close>

definition cleanup_tmp :: "env \<Rightarrow> path \<Rightarrow> world \<Rightarrow> world" where
  "cleanup_tmp ev tmp w =
     (if files w tmp \<noteq> None
      then (if unlink_fails ev tmp then w else w\<lparr>files := (files w)(tmp := None)\<rparr>)
      else w)"

definition download_csv :: "env \<Rightarrow> string \<Rightarrow> path \<Rightarrow> world \<Rightarrow> (exn + unit) \<times> world" where
  "download_csv ev url dest_path w =
     (if mkdir_fails ev (path_parent dest_path) then (Inl OSError, w)
      else
        case with_suffix dest_path ''.tmp'' of
          Inl e \<Rightarrow> (Inl e, w)
        | Inr tmp \<Rightarrow>
            let (r, w1) = download_body ev url dest_path tmp w
            in (r, cleanup_tmp ev tmp w1))"

section \<open>Sync orchestrator\<close>

datatype outcome = SkippedUnchanged | Processed | Failed

text \<open>\<open>Fetching\<close> is the state entered at the \<open>try\<close> of \<open>process_distribution\<close>; it
  is left only towards \<open>Processed\<close> or \<open>Failed\<close>.\<close>

definition reaches_fetching :: "outcome \<Rightarrow> bool" where
  "reaches_fetching out = (out = Processed \<or> out = Failed)"

definition dist_filename :: "dist \<Rightarrow> string" where
  "dist_filename d =
     (if truthy (d_filename d) then the (d_filename d)
      else (case split_on CHR ''?'' (path_name (parse_path (d_url d))) of
              [] \<Rightarrow> [] | p # _ \<Rightarrow> p))"

definition dist_dest_path :: "string \<Rightarrow> dist \<Rightarrow> path" where
  "dist_dest_path dataset_id d = path_join (path_join OUTPUT_DIR dataset_id) (dist_filename d)"

definition ledger_key :: "string \<Rightarrow> string \<Rightarrow> string" where
  "ledger_key dataset_id url = dataset_id @ ''::'' @ url"

definition read_dest :: "(string \<Rightarrow> exn + dataframe) \<Rightarrow> path \<Rightarrow> world \<Rightarrow> exn + dataframe" where
  "read_dest reader p w = (case files w p of None \<Rightarrow> Inl FileNotFoundError | Some text \<Rightarrow> reader text)"

text \<open>The body of the \<open>try\<close> in \<open>process_distribution\<close>: download, re-read, rename the
  headers, rewrite, and build the new ledger entry.\<close>

definition fetch_and_process ::
  "env \<Rightarrow> string \<Rightarrow> string \<Rightarrow> path \<Rightarrow> validators \<Rightarrow> world \<Rightarrow> (exn + ledger_entry) \<times> world" where
  "fetch_and_process ev url filename dest_path info w =
     (case download_csv ev url dest_path w of
        (Inl e, w1) \<Rightarrow> (Inl e, w1)
      | (Inr u, w1) \<Rightarrow>
          (case (case read_dest (read_csv ev) dest_path w1 of
                   Inr df \<Rightarrow> Inr df
                 | Inl e \<Rightarrow> read_dest (read_csv_utf8 ev) dest_path w1) of
             Inl e \<Rightarrow> (Inl e, w1)
           | Inr df0 \<Rightarrow>
               let df = headers_to_snakecase_df df0
               in (case to_csv ev df of
                     Inl e \<Rightarrow> (Inl e, w1)
                   | Inr text \<Rightarrow>
                       if open_fails ev dest_path then (Inl OSError, w1)
                       else
                         (Inr \<lparr>e_url = url, e_filename = filename,
                               e_last_modified = v_last_modified info, e_etag = v_etag info,
                               e_downloaded_at = utcnow ev @ ''Z'',
                               e_rows = length (data_rows df), e_cols = length (columns df)\<rparr>,
                          w1\<lparr>files := (files w1)(dest_path \<mapsto> text)\<rparr>))))"

definition process_distribution ::
  "env \<Rightarrow> string \<Rightarrow> dist \<Rightarrow> ledger \<times> world \<Rightarrow> (exn + outcome) \<times> ledger \<times> world" where
  "process_distribution ev dataset_id d st =
     (let (metadata, w) = st;
          url = d_url d;
          filename = dist_filename d;
          dest_path = dist_dest_path dataset_id d;
          (r, w1) = head_info ev url w
      in case r of
           Inl e \<Rightarrow> (Inl e, metadata, w1)
         | Inr info \<Rightarrow>
             let key = ledger_key dataset_id url;
                 prev = map_of metadata key;
                 prev_etag = (case prev of None \<Rightarrow> None | Some en \<Rightarrow> e_etag en);
                 prev_lm = (case prev of None \<Rightarrow> None | Some en \<Rightarrow> e_last_modified en);
                 remote_etag = v_etag info;
                 remote_lm = v_last_modified info
             in if truthy remote_etag \<and> truthy prev_etag \<and> remote_etag = prev_etag
                then (Inr SkippedUnchanged, metadata, w1)
                else if truthy remote_lm \<and> truthy prev_lm \<and> remote_lm = prev_lm
                then (Inr SkippedUnchanged, metadata, w1)
                else
                  (case fetch_and_process ev url filename dest_path info w1 of
                     (Inr entry, w2) \<Rightarrow> (Inr Processed, AList.update key entry metadata, w2)
                   | (Inl e, w2) \<Rightarrow> (Inr Failed, metadata, w2)))"

section \<open>Concurrent batch\<close>

text \<open>
  \<open>main_async\<close> starts one \<open>process_distribution\<close> coroutine per distribution and
  awaits them with \<open>asyncio.gather\<close>. The coroutines run on one event loop: each runs
  without interruption from one \<open>await\<close> to the next, and at an \<open>await\<close> any other
  coroutine may run. They share the ledger and the files. A coroutine suspends at the
  semaphore, at the HEAD request, at the fallback request, at the download request and
  before each chunk of the body; everything else in it is synchronous.

  Files are held as on a POSIX file system: a name refers to a file, an open file
  stays writable when its name is unlinked, and a rename needs the source name to
  exist.
\<close>

record fsys =
  fs_names :: "path \<rightharpoonup> nat"
  fs_data :: "nat \<Rightarrow> string"
  fs_next :: nat

text \<open>\<open>p.open("wb")\<close>: the file of an existing name is truncated, a missing name gets a
  new empty file; the open file is returned.\<close>

definition open_wb :: "path \<Rightarrow> fsys \<Rightarrow> nat \<times> fsys" where
  "open_wb p fs =
     (case fs_names fs p of
        Some i \<Rightarrow> (i, fs\<lparr>fs_data := (fs_data fs)(i := [])\<rparr>)
      | None \<Rightarrow>
          (fs_next fs,
           fs\<lparr>fs_names := (fs_names fs)(p \<mapsto> fs_next fs),
              fs_data := (fs_data fs)(fs_next fs := []),
              fs_next := Suc (fs_next fs)\<rparr>))"

definition write_file :: "nat \<Rightarrow> string \<Rightarrow> fsys \<Rightarrow> fsys" where
  "write_file i chunk fs = fs\<lparr>fs_data := (fs_data fs)(i := fs_data fs i @ chunk)\<rparr>"

definition read_name :: "path \<Rightarrow> fsys \<Rightarrow> string option" where
  "read_name p fs = (case fs_names fs p of None \<Rightarrow> None | Some i \<Rightarrow> Some (fs_data fs i))"

text \<open>\<open>tmp.replace(dest)\<close>: it raises when the name \<open>tmp\<close> does not exist.\<close>

definition rename_file :: "path \<Rightarrow> path \<Rightarrow> fsys \<Rightarrow> exn + fsys" where
  "rename_file tmp dest fs =
     (case fs_names fs tmp of
        None \<Rightarrow> Inl FileNotFoundError
      | Some i \<Rightarrow>
          if tmp = dest then Inr fs
          else Inr (fs\<lparr>fs_names := ((fs_names fs)(dest \<mapsto> i))(tmp := None)\<rparr>))"

text \<open>The \<open>finally\<close> clause of \<open>download_csv\<close> on these files.\<close>

definition unlink_tmp :: "env \<Rightarrow> path \<Rightarrow> fsys \<Rightarrow> fsys" where
  "unlink_tmp ev tmp fs =
     (if fs_names fs tmp \<noteq> None
      then (if unlink_fails ev tmp then fs else fs\<lparr>fs_names := (fs_names fs)(tmp := None)\<rparr>)
      else fs)"

text \<open>Where a coroutine stands: not yet admitted by the semaphore; waiting for the answer
  to HEAD, to the fallback request, or to the download request (with the probe's
  result and the temporary path); waiting for the next chunk (with the open temporary
  file, the chunks still to come and whether the stream then ends normally); or
  returned.\<close>

datatype phase =
    Pending
  | Await_head
  | Await_fallback
  | Await_get validators path
  | Await_chunk validators path nat "string list" bool
  | Returned outcome

text \<open>From the return of \<open>head_info\<close> to the next await: the two guards, and the start of
  \<open>download_csv\<close> up to the request.\<close>

definition after_probe ::
  "env \<Rightarrow> string \<Rightarrow> dist \<Rightarrow> validators \<Rightarrow> ledger \<Rightarrow> phase" where
  "after_probe ev dataset_id d info metadata =
     (let key = ledger_key dataset_id (d_url d);
          prev = map_of metadata key;
          prev_etag = (case prev of None \<Rightarrow> None | Some en \<Rightarrow> e_etag en);
          prev_lm = (case prev of None \<Rightarrow> None | Some en \<Rightarrow> e_last_modified en);
          remote_etag = v_etag info;
          remote_lm = v_last_modified info;
          dest_path = dist_dest_path dataset_id d
      in if truthy remote_etag \<and> truthy prev_etag \<and> remote_etag = prev_etag
         then Returned SkippedUnchanged
         else if truthy remote_lm \<and> truthy prev_lm \<and> remote_lm = prev_lm
         then Returned SkippedUnchanged
         else if mkdir_fails ev (path_parent dest_path) then Returned Failed
         else (case with_suffix dest_path ''.tmp'' of
                 Inl e \<Rightarrow> Returned Failed
               | Inr tmp \<Rightarrow> Await_get info tmp))"

text \<open>From the end of the stream to the return: the rename, the \<open>finally\<close> clause, the
  re-read, the header renaming, the rewrite and the ledger entry.\<close>

definition after_stream ::
  "env \<Rightarrow> string \<Rightarrow> dist \<Rightarrow> validators \<Rightarrow> path \<Rightarrow> ledger \<times> fsys \<Rightarrow> phase \<times> ledger \<times> fsys" where
  "after_stream ev dataset_id d info tmp st =
     (let (metadata, fs) = st;
          dest_path = dist_dest_path dataset_id d
      in if replace_fails ev tmp then (Returned Failed, metadata, unlink_tmp ev tmp fs)
         else
           (case rename_file tmp dest_path fs of
              Inl e \<Rightarrow> (Returned Failed, metadata, unlink_tmp ev tmp fs)
            | Inr fs1 \<Rightarrow>
                let fs2 = unlink_tmp ev tmp fs1
                in (case (case read_name dest_path fs2 of
                            None \<Rightarrow> Inl FileNotFoundError
                          | Some text \<Rightarrow>
                              (case read_csv ev text of
                                 Inr df \<Rightarrow> Inr df
                               | Inl e \<Rightarrow> read_csv_utf8 ev text)) of
                      Inl e \<Rightarrow> (Returned Failed, metadata, fs2)
                    | Inr df0 \<Rightarrow>
                        let df = headers_to_snakecase_df df0
                        in (case to_csv ev df of
                              Inl e \<Rightarrow> (Returned Failed, metadata, fs2)
                            | Inr text \<Rightarrow>
                                if open_fails ev dest_path then (Returned Failed, metadata, fs2)
                                else
                                  let (i, fs3) = open_wb dest_path fs2
                                  in (Returned Processed,
                                      AList.update (ledger_key dataset_id (d_url d))
                                        \<lparr>e_url = d_url d, e_filename = dist_filename d,
                                         e_last_modified = v_last_modified info,
                                         e_etag = v_etag info,
                                         e_downloaded_at = utcnow ev @ ''Z'',
                                         e_rows = length (data_rows df),
                                         e_cols = length (columns df)\<rparr> metadata,
                                      write_file i text fs3)))))"

text \<open>One resumption of a coroutine: it runs from where it stands to its next await or
  to its return.\<close>

definition resume ::
  "env \<Rightarrow> string \<Rightarrow> dist \<Rightarrow> phase \<Rightarrow> ledger \<times> fsys \<Rightarrow> phase \<times> ledger \<times> fsys" where
  "resume ev dataset_id d ph st =
     (let (metadata, fs) = st
      in case ph of
           Pending \<Rightarrow> (Await_head, metadata, fs)
         | Await_head \<Rightarrow>
             (case net ev (HEAD (d_url d)) of
                Inr resp \<Rightarrow> (after_probe ev dataset_id d (response_info resp) metadata, metadata, fs)
              | Inl e \<Rightarrow> (Await_fallback, metadata, fs))
         | Await_fallback \<Rightarrow>
             (case net ev (GET_limit1 (d_url d)) of
                Inr resp \<Rightarrow> (after_probe ev dataset_id d (response_info resp) metadata, metadata, fs)
              | Inl e \<Rightarrow>
                  (after_probe ev dataset_id d \<lparr>v_last_modified = None, v_etag = None\<rparr> metadata,
                   metadata, fs))
         | Await_get info tmp \<Rightarrow>
             (case net ev (GET (d_url d)) of
                Inl e \<Rightarrow> (Returned Failed, metadata, unlink_tmp ev tmp fs)
              | Inr resp \<Rightarrow>
                  if 400 \<le> status resp then (Returned Failed, metadata, unlink_tmp ev tmp fs)
                  else if open_fails ev tmp then (Returned Failed, metadata, unlink_tmp ev tmp fs)
                  else
                    let (i, fs1) = open_wb tmp fs
                    in (Await_chunk info tmp i (chunks resp) (complete resp), metadata, fs1))
         | Await_chunk info tmp i cs fin \<Rightarrow>
             (case cs of
                chunk # rest \<Rightarrow>
                  (Await_chunk info tmp i rest fin, metadata,
                   if chunk \<noteq> [] then write_file i chunk fs else fs)
              | [] \<Rightarrow>
                  if fin then after_stream ev dataset_id d info tmp (metadata, fs)
                  else (Returned Failed, metadata, unlink_tmp ev tmp fs))
         | Returned out \<Rightarrow> (Returned out, metadata, fs))"

definition CONCURRENT_DOWNLOADS :: nat where
  "CONCURRENT_DOWNLOADS = 8"

text \<open>The batch: the coroutines with where they stand, the ledger and the files. The
  event loop resumes one coroutine at a time; a coroutine waiting at the semaphore is
  admitted only while fewer than \<open>CONCURRENT_DOWNLOADS\<close> others are inside it.\<close>

type_synonym batch = "(string \<times> dist \<times> phase) list \<times> ledger \<times> fsys"

definition inside :: "phase \<Rightarrow> bool" where
  "inside ph = (case ph of Pending \<Rightarrow> False | Returned out \<Rightarrow> False | _ \<Rightarrow> True)"

definition resume_nth :: "env \<Rightarrow> nat \<Rightarrow> batch \<Rightarrow> batch" where
  "resume_nth ev n b =
     (let (tasks, metadata, fs) = b
      in if n < length tasks then
           (let (dataset_id, d, ph) = tasks ! n
            in if ph = Pending
                  \<and> CONCURRENT_DOWNLOADS \<le> length (filter (\<lambda>(x, y, p). inside p) tasks)
               then b
               else
                 let (ph1, metadata1, fs1) = resume ev dataset_id d ph (metadata, fs)
                 in (tasks[n := (dataset_id, d, ph1)], metadata1, fs1))
         else b)"

text \<open>A run of the event loop under a schedule: the list of the coroutines resumed, in
  order.\<close>

fun run_batch :: "env \<Rightarrow> nat list \<Rightarrow> batch \<Rightarrow> batch" where
  "run_batch ev [] b = b"
| "run_batch ev (n # schedule) b = run_batch ev schedule (resume_nth ev n b)"

definition start_batch :: "(string \<times> dist) list \<Rightarrow> ledger \<Rightarrow> fsys \<Rightarrow> batch" where
  "start_batch tasks metadata fs = (map (\<lambda>(dataset_id, d). (dataset_id, d, Pending)) tasks, metadata, fs)"

definition outcomes :: "batch \<Rightarrow> outcome option list" where
  "outcomes b =
     map (\<lambda>(dataset_id, d, ph). case ph of Returned out \<Rightarrow> Some out | _ \<Rightarrow> None) (fst b)"

definition empty_fsys :: fsys where
  "empty_fsys = \<lparr>fs_names = Map.empty, fs_data = (\<lambda>i. []), fs_next = 0\<rparr>"

section \<open>A concrete environment for worked examples\<close>

text \<open>A server description by status, validators and stream end; an environment with
  no file system fault, a fixed data frame from the first reader, and a given network.\<close>

definition demo_headers :: "string option \<Rightarrow> string option \<Rightarrow> string \<Rightarrow> string option" where
  "demo_headers etag lm h =
     (if h = ''ETag'' \<or> h = ''etag'' then etag
      else if h = ''Last-Modified'' \<or> h = ''last-modified'' then lm
      else None)"

definition demo_response :: "nat \<Rightarrow> string option \<Rightarrow> string option \<Rightarrow> bool \<Rightarrow> response" where
  "demo_response st etag lm fin =
     \<lparr>status = st, header = demo_headers etag lm,
      chunks = [''Facility ID,overallRating;'', ''010001,5;''], complete = fin\<rparr>"

definition demo_frame :: dataframe where
  "demo_frame = \<lparr>columns = [''Facility ID'', ''overallRating''], data_rows = [[''010001'', ''5'']]\<rparr>"

definition demo_env :: "(request \<Rightarrow> exn + response) \<Rightarrow> env" where
  "demo_env n =
     \<lparr>net = n,
      mkdir_fails = (\<lambda>p. False), open_fails = (\<lambda>p. False),
      replace_fails = (\<lambda>p. False), unlink_fails = (\<lambda>p. False),
      read_csv = (\<lambda>text. Inr demo_frame),
      read_csv_utf8 = (\<lambda>text. Inl ParserError),
      to_csv = (\<lambda>df. Inr (join '','' (columns df))),
      utcnow = ''2024-10-01T00:00:00''\<rparr>"

definition demo_url :: string where
  "demo_url = ''https://data.example/files/hospitals.csv''"

definition demo_dist :: dist where
  "demo_dist = \<lparr>d_url = demo_url, d_filename = None, d_last_modified = None, d_etag = None\<rparr>"

definition demo_entry :: "string option \<Rightarrow> string option \<Rightarrow> ledger_entry" where
  "demo_entry etag lm =
     \<lparr>e_url = demo_url, e_filename = ''hospitals.csv'', e_last_modified = lm, e_etag = etag,
      e_downloaded_at = ''2024-09-01T00:00:00Z'', e_rows = 1, e_cols = 2\<rparr>"

definition demo_ledger :: "string option \<Rightarrow> string option \<Rightarrow> ledger" where
  "demo_ledger etag lm = [(ledger_key ''ds1'' demo_url, demo_entry etag lm)]"

definition demo_world :: world where
  "demo_world = \<lparr>files = Map.empty, requests = []\<rparr>"

text \<open>A server that answers every request with status 200 and the given validators,
  one that answers every request with status 500, and no server at all.\<close>

definition net_ok :: "string option \<Rightarrow> string option \<Rightarrow> request \<Rightarrow> exn + response" where
  "net_ok etag lm r = Inr (demo_response 200 etag lm True)"

definition net_500 :: "request \<Rightarrow> exn + response" where
  "net_500 r = Inr (demo_response 500 None None True)"

definition net_down :: "request \<Rightarrow> exn + response" where
  "net_down r = Inl ClientError"

text \<open>A distribution is healthy in an environment when each step of its own download and
  processing succeeds there: the directory can be made, the temporary sibling differs
  from the destination and can be opened and renamed, the download answers below 400
  and streams to the end, one of the two readers parses what was streamed, and the
  rewrite succeeds.\<close>

definition healthy :: "env \<Rightarrow> string \<Rightarrow> dist \<Rightarrow> bool" where
  "healthy ev dataset_id d =
     (let dest = dist_dest_path dataset_id d
      in \<not> mkdir_fails ev (path_parent dest) \<and> \<not> open_fails ev dest
         \<and> (case with_suffix dest ''.tmp'' of
               Inl e \<Rightarrow> False
             | Inr tmp \<Rightarrow> tmp \<noteq> dest \<and> \<not> open_fails ev tmp \<and> \<not> replace_fails ev tmp)
         \<and> (case net ev (GET (d_url d)) of
               Inl e \<Rightarrow> False
             | Inr resp \<Rightarrow>
                 status resp < 400 \<and> complete resp
                 \<and> (case (case read_csv ev (write_chunks (chunks resp)) of
                             Inr df \<Rightarrow> Inr df
                           | Inl e \<Rightarrow> read_csv_utf8 ev (write_chunks (chunks resp))) of
                       Inl e \<Rightarrow> False
                     | Inr df \<Rightarrow>
                         (case to_csv ev (headers_to_snakecase_df df) of
                            Inl e \<Rightarrow> False | Inr text \<Rightarrow> True))))"

text \<open>The probe of a distribution carries no usable validator, so that neither guard of
  the orchestrator can skip it.\<close>

definition no_validators :: "env \<Rightarrow> dist \<Rightarrow> bool" where
  "no_validators ev d =
     (case fst (head_info ev (d_url d) \<lparr>files = Map.empty, requests = []\<rparr>) of
        Inl e \<Rightarrow> False
      | Inr info \<Rightarrow> \<not> truthy (v_etag info) \<and> \<not> truthy (v_last_modified info))"

text \<open>A network where one URL never answers and every other request is answered with
  status 200 and no validators; a world holding one file.\<close>

definition net_one_down :: "string \<Rightarrow> request \<Rightarrow> exn + response" where
  "net_one_down bad r =
     (if r = HEAD bad \<or> r = GET_limit1 bad \<or> r = GET bad then Inl ClientError
      else Inr (demo_response 200 None None True))"

definition world_with :: "path \<Rightarrow> string \<Rightarrow> world" where
  "world_with p text = \<lparr>files = [p \<mapsto> text], requests = []\<rparr>"


definition demo_tmp_dist :: dist where
  "demo_tmp_dist = demo_dist\<lparr>d_filename := Some ''hospitals.tmp''\<rparr>"

definition demo_tmp_dest :: path where
  "demo_tmp_dest = Path False [''data'', ''ds1'', ''hospitals.tmp'']"

text \<open>A server that does not allow HEAD: it answers HEAD with status 405 and no
  validators, and every other request with status 200 and the given validators.\<close>

definition net_head_405 :: "string option \<Rightarrow> string option \<Rightarrow> request \<Rightarrow> exn + response" where
  "net_head_405 etag lm r =
     (case r of
        HEAD u \<Rightarrow> Inr (demo_response 405 None None True)
      | GET_limit1 u \<Rightarrow> Inr (demo_response 200 etag lm True)
      | GET u \<Rightarrow> Inr (demo_response 200 etag lm True))"

text \<open>Two distributions of one dataset whose URLs end in the same file name, so that they
  share the destination \<open>data/ds1/data.csv\<close> and the temporary file \<open>data/ds1/data.tmp\<close>.
  The server of the first one never answers.\<close>

definition demo_url_2023 :: string where
  "demo_url_2023 = ''https://data.example/2023/data.csv''"

definition demo_url_2024 :: string where
  "demo_url_2024 = ''https://data.example/2024/data.csv''"

definition demo_dist_2023 :: dist where
  "demo_dist_2023 = \<lparr>d_url = demo_url_2023, d_filename = None, d_last_modified = None, d_etag = None\<rparr>"

definition demo_dist_2024 :: dist where
  "demo_dist_2024 = \<lparr>d_url = demo_url_2024, d_filename = None, d_last_modified = None, d_etag = None\<rparr>"

section \<open>Properties of the header normalizer\<close>

lemma code_us: "code CHR ''_'' = 95" by (simp add: code_def)
lemma code_blank: "code CHR '' '' = 32" by (simp add: code_def)

lemma space_not_word: "is_space c \<Longrightarrow> \<not> is_word c"
  by (auto simp: is_space_def is_word_def is_alnum_def is_high_alnum_def is_upper_def
        is_lower_def is_digit_def code_us)

lemma blank_is_space: "is_space CHR '' ''"
  by (simp add: is_space_def code_blank)

lemma us_not_alnum: "\<not> is_alnum CHR ''_''"
  by (simp add: is_alnum_def is_high_alnum_def is_upper_def is_lower_def is_digit_def code_us)

lemma alnum_not_space: "is_alnum c \<Longrightarrow> \<not> is_space c"
  by (auto simp: is_space_def is_alnum_def is_high_alnum_def is_upper_def is_lower_def
        is_digit_def)

lemma lower_char_alnum: "is_alnum c \<Longrightarrow> is_alnum (lower_char c)"
  by (auto simp: lower_char_def is_alnum_def is_high_alnum_def is_upper_def is_lower_def
        is_digit_def code_def)

lemma lower_char_not_upper: "\<not> is_upper (lower_char c)"
  by (auto simp: lower_char_def is_upper_def code_def)

lemma sub_runs_id: "\<forall>c\<in>set s. \<not> p c \<Longrightarrow> sub_runs p r s = s"
  by (induction s) auto

lemma set_sub_runs: "set (sub_runs p r s) \<subseteq> set s \<union> {r}"
proof (induction p r s rule: sub_runs.induct)
  case (1 p r)
  then show ?case by simp
next
  case (2 p r c cs)
  have "set (dropWhile p cs) \<subseteq> set cs" by (rule set_dropWhileD [THEN subsetI]) 
  with 2 show ?case by auto
qed

lemma sub_runs_Nil_iff: "sub_runs p r s = [] \<longleftrightarrow> s = []"
  by (cases s) auto

lemma set_split_camel: "set (split_camel s) \<subseteq> set s \<union> {CHR '' ''}"
  by (induction s rule: split_camel.induct) auto

lemma set_split_camel_ge: "set s \<subseteq> set (split_camel s)"
  by (induction s rule: split_camel.induct) auto

lemma split_camel_id: "\<forall>c\<in>set s. \<not> is_upper c \<Longrightarrow> split_camel s = s"
  by (induction s rule: split_camel.induct) auto

lemma dropWhile_id: "\<forall>c\<in>set s. \<not> p c \<Longrightarrow> dropWhile p s = s"
  by (cases s) auto

lemma set_strip: "set (strip s) \<subseteq> set s"
proof
  fix x assume "x \<in> set (strip s)"
  then have "x \<in> set (dropWhile is_space (rev (dropWhile is_space s)))"
    by (simp add: strip_def)
  then have "x \<in> set (rev (dropWhile is_space s))" by (rule set_dropWhileD)
  then have "x \<in> set (dropWhile is_space s)" by simp
  then show "x \<in> set s" by (rule set_dropWhileD)
qed

lemma strip_id:
  assumes a: "\<forall>c\<in>set s. \<not> is_space c"
  shows "strip s = s"
proof -
  have 1: "dropWhile is_space s = s" using a by (rule dropWhile_id)
  from a have "\<forall>c\<in>set (rev s). \<not> is_space c" by simp
  then have 2: "dropWhile is_space (rev s) = rev s" by (rule dropWhile_id)
  show ?thesis by (simp only: strip_def 1 2 rev_rev_ident)
qed

lemma dropWhile_all_Nil:
  assumes all: "\<forall>c\<in>set (dropWhile p s). p c"
  shows "dropWhile p s = []"
proof (rule ccontr)
  assume ne: "dropWhile p s \<noteq> []"
  then have "\<not> p (hd (dropWhile p s))" by (rule hd_dropWhile)
  moreover from ne have "hd (dropWhile p s) \<in> set (dropWhile p s)" by (rule hd_in_set)
  ultimately show False using all by blast
qed

lemma strip_all_space: "(\<forall>c\<in>set (strip s). is_space c) \<longleftrightarrow> (\<forall>c\<in>set s. is_space c)"
proof
  assume a: "\<forall>c\<in>set (strip s). is_space c"
  let ?u = "dropWhile is_space s"
  let ?t = "dropWhile is_space (rev ?u)"
  have "\<forall>c\<in>set ?t. is_space c" using a by (simp only: strip_def set_rev)
  then have "?t = []" by (rule dropWhile_all_Nil)
  then have "\<forall>c\<in>set (rev ?u). is_space c" by (simp only: dropWhile_eq_Nil_conv)
  then have "\<forall>c\<in>set ?u. is_space c" by (simp only: set_rev)
  then have "?u = []" by (rule dropWhile_all_Nil)
  then show "\<forall>c\<in>set s. is_space c" by (simp only: dropWhile_eq_Nil_conv)
next
  assume "\<forall>c\<in>set s. is_space c"
  then show "\<forall>c\<in>set (strip s). is_space c" using set_strip [of s] by (simp only: subset_iff) blast
qed

lemma split_on_not_Nil: "split_on d s \<noteq> []"
  by (induction s) (auto split: list.splits)

lemma set_split_on: "p \<in> set (split_on d s) \<Longrightarrow> set p \<subseteq> set s - {d}"
proof (induction s arbitrary: p)
  case Nil
  then show ?case by simp
next
  case (Cons a s)
  show ?case
  proof (cases "a = d")
    case True
    with Cons show ?thesis by auto
  next
    case False
    obtain q qs where q: "split_on d s = q # qs"
      using split_on_not_Nil by (cases "split_on d s") auto
    from Cons.IH [of q] q have 1: "set q \<subseteq> set s - {d}" by simp
    have 2: "\<And>r. r \<in> set qs \<Longrightarrow> set r \<subseteq> set s - {d}"
      using Cons.IH q by simp
    from Cons.prems False q have "p = a # q \<or> p \<in> set qs" by simp
    with 1 2 False show ?thesis by auto
  qed
qed

lemma split_on_all_empty: "(\<forall>p\<in>set (split_on d s). p = []) \<longleftrightarrow> set s \<subseteq> {d}"
  by (induction s) (auto split: list.splits simp: split_on_not_Nil)

lemma split_on_none: "d \<notin> set s \<Longrightarrow> split_on d s = [s]"
  by (induction s) auto

lemma strip_Nil_iff: "strip s = [] \<longleftrightarrow> (\<forall>c\<in>set s. is_space c)"
proof
  assume "strip s = []"
  then have "\<forall>c\<in>set (strip s). is_space c" by simp
  then show "\<forall>c\<in>set s. is_space c" by (simp only: strip_all_space)
next
  assume "\<forall>c\<in>set s. is_space c"
  then have "dropWhile is_space s = []" by (simp only: dropWhile_eq_Nil_conv)
  then show "strip s = []" by (simp only: strip_def rev.simps dropWhile.simps)
qed

lemma in_sub_runs: "c \<in> set (sub_runs p r s) \<Longrightarrow> c = r \<or> (c \<in> set s \<and> \<not> p c)"
proof (induction p r s rule: sub_runs.induct)
  case (1 p r)
  then show ?case by simp
next
  case (2 p r c' cs)
  show ?case
  proof (cases "p c'")
    case True
    with 2 have "c = r \<or> c \<in> set (sub_runs p r (dropWhile p cs))" by simp
    then show ?thesis
    proof
      assume "c = r" then show ?thesis by simp
    next
      assume "c \<in> set (sub_runs p r (dropWhile p cs))"
      with 2 True have "c = r \<or> (c \<in> set (dropWhile p cs) \<and> \<not> p c)" by blast
      then show ?thesis by (auto dest: set_dropWhileD)
    qed
  next
    case False
    with 2 show ?thesis by auto
  qed
qed

lemma sub_runs_all:
  assumes "p r"
  shows "(\<forall>c\<in>set (sub_runs p r s). p c) \<longleftrightarrow> (\<forall>c\<in>set s. p c)"
  using assms
proof (induction p r s rule: sub_runs.induct)
  case (1 p r)
  then show ?case by simp
next
  case (2 p r c cs)
  show ?case
  proof (cases "p c")
    case True
    have "(\<forall>x\<in>set cs. p x) \<longleftrightarrow> (\<forall>x\<in>set (dropWhile p cs). p x)"
    proof
      assume "\<forall>x\<in>set cs. p x"
      then show "\<forall>x\<in>set (dropWhile p cs). p x" by (blast dest: set_dropWhileD)
    next
      assume "\<forall>x\<in>set (dropWhile p cs). p x"
      then have "dropWhile p cs = []" by (rule dropWhile_all_Nil)
      then show "\<forall>x\<in>set cs. p x" by (simp only: dropWhile_eq_Nil_conv)
    qed
    moreover from True 2 have "(\<forall>c\<in>set (sub_runs p r (dropWhile p cs)). p c) \<longleftrightarrow> (\<forall>c\<in>set (dropWhile p cs). p c)"
      by blast
    moreover have "sub_runs p r (c # cs) = r # sub_runs p r (dropWhile p cs)"
      using True by simp
    ultimately show ?thesis using True 2(3) by (simp only: list.set ball_simps insert_iff)
  next
    case False
    then show ?thesis by simp
  qed
qed

lemma trailing_underscore_iff: "trailing_underscore s \<longleftrightarrow> s \<noteq> [] \<and> last s = CHR ''_''"
  by (cases s rule: rev_cases) (simp_all add: trailing_underscore_def)

lemma doubled_Cons_us:
  "doubled_underscore (CHR ''_'' # r) \<longleftrightarrow> leading_underscore r \<or> doubled_underscore r"
  by (cases r) auto

lemma doubled_append:
  "doubled_underscore (a @ b) \<longleftrightarrow>
     doubled_underscore a \<or> doubled_underscore b \<or> (trailing_underscore a \<and> leading_underscore b)"
proof (induction a rule: doubled_underscore.induct)
  case (1 x y cs)
  then show ?case by (auto simp: trailing_underscore_iff)
next
  case (2 v)
  then show ?case by (cases b) (auto simp: trailing_underscore_iff)
next
  case 3
  then show ?case by (simp add: trailing_underscore_iff)
qed

lemma no_us_good:
  assumes "CHR ''_'' \<notin> set t"
  shows "\<not> leading_underscore t" "\<not> trailing_underscore t" "\<not> doubled_underscore t"
proof -
  show "\<not> leading_underscore t" using assms by (cases t) auto
  show "\<not> trailing_underscore t" using assms by (cases t rule: rev_cases) (auto simp: trailing_underscore_iff)
  show "\<not> doubled_underscore t" using assms by (induction t rule: doubled_underscore.induct) auto
qed

lemma join_Nil_iff: "\<forall>t\<in>set ts. t \<noteq> [] \<Longrightarrow> join sep ts = [] \<longleftrightarrow> ts = []"
  by (induction sep ts rule: join.induct) auto

lemma leading_append: "a \<noteq> [] \<Longrightarrow> leading_underscore (a @ b) = leading_underscore a"
  by (cases a) auto

lemma trailing_append: "b \<noteq> [] \<Longrightarrow> trailing_underscore (a @ b) = trailing_underscore b"
  by (simp add: trailing_underscore_iff)

lemma join_good:
  assumes "\<forall>t\<in>set ts. t \<noteq> [] \<and> CHR ''_'' \<notin> set t"
  shows "\<not> leading_underscore (join ''_'' ts) \<and> \<not> trailing_underscore (join ''_'' ts)
         \<and> \<not> doubled_underscore (join ''_'' ts)"
  using assms
proof (induction "''_''" ts rule: join.induct)
  case 1
  then show ?case by (simp add: trailing_underscore_def)
next
  case (2 p)
  then show ?case using no_us_good [of p] by simp
next
  case (3 p q ps)
  let ?r = "join ''_'' (q # ps)"
  from 3 have ih: "\<not> leading_underscore ?r" "\<not> trailing_underscore ?r" "\<not> doubled_underscore ?r"
    by simp_all
  from 3 have p: "p \<noteq> []" "CHR ''_'' \<notin> set p" by simp_all
  from 3 have "?r \<noteq> []" using join_Nil_iff [of "q # ps" "''_''"] by simp
  note g = no_us_good [OF p(2)]
  have e: "join ''_'' (p # q # ps) = p @ (CHR ''_'' # ?r)" by simp
  have "\<not> leading_underscore (p @ (CHR ''_'' # ?r))" using p g by (simp add: leading_append)
  moreover have "\<not> trailing_underscore (p @ (CHR ''_'' # ?r))"
    using ih \<open>?r \<noteq> []\<close> by (simp add: trailing_underscore_iff)
  moreover have "\<not> doubled_underscore (p @ (CHR ''_'' # ?r))"
    using ih g by (simp add: doubled_append doubled_Cons_us)
  ultimately show ?case by (simp only: e) simp
qed

lemma to_snake_case_Some:
  "to_snake_case (Some s) = join ''_'' (map sanitize_part (raw_parts s))"
  by (simp add: to_snake_case_def raw_parts_def blank_symbols_def)

lemma raw_part_chars:
  assumes "p \<in> set (raw_parts x)" and "c \<in> set p"
  shows "c \<in> set x \<and> is_word c"
proof -
  let ?s1 = "blank_symbols x"
  let ?s2' = "sub_runs is_space CHR '' '' ?s1"
  let ?s2 = "strip ?s2'"
  let ?s3 = "split_camel ?s2"
  from assms(1) have "p \<in> set (split_on CHR '' '' ?s3)" by (simp add: raw_parts_def)
  then have "set p \<subseteq> set ?s3 - {CHR '' ''}" by (rule set_split_on)
  with assms(2) have c3: "c \<in> set ?s3" and nb: "c \<noteq> CHR '' ''" by auto
  from c3 nb set_split_camel [of ?s2] have "c \<in> set ?s2" by auto
  with set_strip [of ?s2'] have "c \<in> set ?s2'" by auto
  then have "c = CHR '' '' \<or> (c \<in> set ?s1 \<and> \<not> is_space c)" by (rule in_sub_runs)
  with nb have c1: "c \<in> set ?s1" and ns: "\<not> is_space c" by auto
  from c1 obtain d where d: "d \<in> set x" "c = (if is_word d \<or> is_space d then d else CHR '' '')"
    by (auto simp: blank_symbols_def)
  with nb have "c = d" "is_word d \<or> is_space d" by (auto split: if_splits)
  with d(1) ns show ?thesis by auto
qed

lemma raw_part_nonempty: "p \<in> set (raw_parts x) \<Longrightarrow> p \<noteq> []"
  by (simp add: raw_parts_def)

lemma sanitize_part_Nil_iff: "sanitize_part p = [] \<longleftrightarrow> p = []"
  by (simp add: sanitize_part_def sub_runs_Nil_iff)

lemma raw_parts_Nil_iff: "raw_parts x = [] \<longleftrightarrow> (\<forall>c\<in>set x. \<not> is_word c)"
proof -
  let ?s1 = "blank_symbols x"
  let ?s2' = "sub_runs is_space CHR '' '' ?s1"
  let ?s2 = "strip ?s2'"
  let ?s3 = "split_camel ?s2"
  have "raw_parts x = [] \<longleftrightarrow> (\<forall>p\<in>set (split_on CHR '' '' ?s3). p = [])"
    by (simp add: raw_parts_def filter_empty_conv)
  also have "\<dots> \<longleftrightarrow> set ?s3 \<subseteq> {CHR '' ''}" by (rule split_on_all_empty)
  also have "\<dots> \<longleftrightarrow> set ?s2 \<subseteq> {CHR '' ''}"
    using set_split_camel [of ?s2] set_split_camel_ge [of ?s2] by blast
  also have "\<dots> \<longleftrightarrow> (\<forall>c\<in>set ?s2'. is_space c)"
  proof
    assume "set ?s2 \<subseteq> {CHR '' ''}"
    then have "\<forall>c\<in>set ?s2. is_space c" using blank_is_space by auto
    then show "\<forall>c\<in>set ?s2'. is_space c" by (simp only: strip_all_space)
  next
    assume "\<forall>c\<in>set ?s2'. is_space c"
    then have "?s2 = []" by (simp only: strip_Nil_iff)
    then show "set ?s2 \<subseteq> {CHR '' ''}" by simp
  qed
  also have "\<dots> \<longleftrightarrow> (\<forall>c\<in>set ?s1. is_space c)"
    by (rule sub_runs_all) (rule blank_is_space)
  also have "\<dots> \<longleftrightarrow> (\<forall>c\<in>set x. \<not> is_word c)"
    using space_not_word blank_is_space by (auto simp: blank_symbols_def)
  finally show ?thesis .
qed

lemma to_snake_case_empty_iff:
  "to_snake_case (Some x) = [] \<longleftrightarrow> (\<forall>c\<in>set x. \<not> is_word c)"
proof -
  have "\<forall>t\<in>set (map sanitize_part (raw_parts x)). t \<noteq> []"
    by (auto simp: sanitize_part_Nil_iff dest: raw_part_nonempty)
  then have "to_snake_case (Some x) = [] \<longleftrightarrow> map sanitize_part (raw_parts x) = []"
    by (simp only: to_snake_case_Some join_Nil_iff)
  then show ?thesis by (simp add: raw_parts_Nil_iff)
qed

lemma word_not_us_alnum: "is_word c \<Longrightarrow> c \<noteq> CHR ''_'' \<Longrightarrow> is_alnum c"
  by (simp add: is_word_def is_alnum_def)

lemma sanitize_alnum:
  assumes "\<forall>c\<in>set p. is_alnum c"
  shows "sanitize_part p = map lower_char p"
proof -
  have "\<forall>c\<in>set p. \<not> (c = CHR ''_'' \<or> is_space c)"
    using assms us_not_alnum alnum_not_space by auto
  then have "sub_runs (\<lambda>c. c = CHR ''_'' \<or> is_space c) CHR ''_'' p = p" by (rule sub_runs_id)
  then show ?thesis by (simp add: sanitize_part_def)
qed

lemma tokens_no_underscore:
  assumes "CHR ''_'' \<notin> set x" and "t \<in> set (map sanitize_part (raw_parts x))"
  shows "t \<noteq> [] \<and> (\<forall>c\<in>set t. is_alnum c \<and> \<not> is_upper c)"
proof -
  from assms(2) obtain p where p: "p \<in> set (raw_parts x)" "t = sanitize_part p" by auto
  have al: "\<forall>c\<in>set p. is_alnum c"
  proof
    fix c assume "c \<in> set p"
    with p(1) have "c \<in> set x \<and> is_word c" by (rule raw_part_chars)
    with assms(1) show "is_alnum c" using word_not_us_alnum by auto
  qed
  then have "t = map lower_char p" using p(2) by (simp add: sanitize_alnum)
  with al raw_part_nonempty [OF p(1)] show ?thesis
    by (auto simp: lower_char_alnum lower_char_not_upper)
qed

lemma to_snake_case_no_underscore_input:
  assumes "CHR ''_'' \<notin> set x"
  shows "\<not> leading_underscore (to_snake_case (Some x))
       \<and> \<not> trailing_underscore (to_snake_case (Some x))
       \<and> \<not> doubled_underscore (to_snake_case (Some x))"
proof -
  have "\<forall>t\<in>set (map sanitize_part (raw_parts x)). t \<noteq> [] \<and> CHR ''_'' \<notin> set t"
    using tokens_no_underscore [OF assms] us_not_alnum by blast
  then show ?thesis by (simp only: to_snake_case_Some) (rule join_good)
qed

lemma us_word: "is_word CHR ''_''"
  by (simp add: is_word_def)

lemma blank_not_word: "\<not> is_word CHR '' ''"
  using blank_is_space space_not_word by blast

lemma link_sym: "link a b = link b a"
  by (auto simp: link_def)

lemma link_nonword: "\<not> is_word p \<Longrightarrow> link p c = (c \<noteq> CHR ''_'')"
  using us_word by (auto simp: link_def)

lemma link_nonword_right: "\<not> is_word q \<Longrightarrow> link c q = (c \<noteq> CHR ''_'')"
  using link_nonword [of q c] by (simp add: link_sym)

lemma enclosed_append:
  "enclosed_between p (s @ c # t) q = (enclosed_between p s c \<and> enclosed_between c t q)"
  by (induction s arbitrary: p) auto

lemma enclosed_rev: "enclosed_between p (rev s) q = enclosed_between q s p"
proof (induction s arbitrary: q)
  case Nil
  then show ?case by (simp add: link_sym)
next
  case (Cons c cs)
  have "enclosed_between p (rev cs @ c # []) q
        = (enclosed_between p (rev cs) c \<and> enclosed_between c [] q)"
    by (rule enclosed_append)
  then show ?case using Cons [of c] by (auto simp: link_sym)
qed

lemma enclosed_left_pad:
  "\<not> is_word p \<Longrightarrow> \<not> is_word p' \<Longrightarrow> enclosed_between p s q = enclosed_between p' s q"
  by (cases s) (simp_all add: link_nonword)

lemma enclosed_blank_symbols:
  "enclosed_between CHR '' '' (blank_symbols s) CHR '' '' = enclosed_between CHR '' '' s CHR '' ''"
proof -
  let ?f = "\<lambda>c. if is_word c \<or> is_space c then c else CHR '' ''"
  have fu: "\<And>c. (?f c = CHR ''_'') = (c = CHR ''_'')" using us_word by auto
  have fw: "\<And>c. is_word (?f c) = is_word c" using blank_not_word by auto
  have l: "\<And>a b. link (?f a) (?f b) = link a b"
    unfolding link_def by (simp only: fu fw)
  have g: "\<And>p q. enclosed_between (?f p) (map ?f s) (?f q) = enclosed_between p s q"
  proof (induction s)
    case Nil
    show ?case by (simp add: l)
  next
    case (Cons c cs)
    show ?case using Cons [of c q] l [of p c] by simp
  qed
  have "?f CHR '' '' = CHR '' ''" using blank_is_space by simp
  with g [of "CHR '' ''" "CHR '' ''"] show ?thesis by (simp add: blank_symbols_def)
qed

lemma enclosed_dropWhile:
  "\<not> is_word p \<Longrightarrow> enclosed_between p s q
   \<Longrightarrow> enclosed_between CHR '' '' (dropWhile is_space s) q"
proof (induction s arbitrary: p)
  case Nil
  then show ?case using enclosed_left_pad [OF Nil(1) blank_not_word, of "[]" q] by simp
next
  case (Cons d ds)
  show ?case
  proof (cases "is_space d")
    case True
    then have "\<not> is_word d" by (rule space_not_word)
    moreover from Cons.prems(2) have "enclosed_between d ds q" by simp
    ultimately have "enclosed_between CHR '' '' (dropWhile is_space ds) q" by (rule Cons.IH)
    with True show ?thesis by simp
  next
    case False
    from Cons.prems(2) have "enclosed_between CHR '' '' (d # ds) q"
      using enclosed_left_pad [OF Cons.prems(1) blank_not_word, of "d # ds" q] by simp
    with False show ?thesis by simp
  qed
qed

lemma enclosed_sub_runs:
  "enclosed_between a s q \<Longrightarrow> enclosed_between a (sub_runs is_space CHR '' '' s) q"
proof (induction is_space "CHR '' ''" s arbitrary: a rule: sub_runs.induct)
  case 1
  then show ?case by simp
next
  case (2 c cs)
  show ?case
  proof (cases "is_space c")
    case True
    then have nw: "\<not> is_word c" by (rule space_not_word)
    from 2(3) have l: "link a c" and e: "enclosed_between c cs q" by simp_all
    from l nw have "a \<noteq> CHR ''_''" by (simp add: link_nonword_right)
    then have la: "link a CHR '' ''" by (simp add: link_nonword_right blank_not_word)
    have "enclosed_between CHR '' '' (dropWhile is_space cs) q"
      using nw e by (rule enclosed_dropWhile)
    with 2(1) True have "enclosed_between CHR '' '' (sub_runs is_space CHR '' '' (dropWhile is_space cs)) q"
      by blast
    with la True show ?thesis by simp
  next
    case False
    from 2(3) have l: "link a c" and e: "enclosed_between c cs q" by simp_all
    from 2(2) False e have "enclosed_between c (sub_runs is_space CHR '' '' cs) q" by blast
    with l False show ?thesis by simp
  qed
qed

lemma enclosed_strip:
  assumes "enclosed_between CHR '' '' s CHR '' ''"
  shows "enclosed_between CHR '' '' (strip s) CHR '' ''"
proof -
  let ?u = "dropWhile is_space s"
  have 1: "enclosed_between CHR '' '' ?u CHR '' ''"
    using blank_not_word assms by (rule enclosed_dropWhile)
  then have 2: "enclosed_between CHR '' '' (rev ?u) CHR '' ''" by (simp only: enclosed_rev)
  have 3: "enclosed_between CHR '' '' (dropWhile is_space (rev ?u)) CHR '' ''"
    using blank_not_word 2 by (rule enclosed_dropWhile)
  then show ?thesis by (simp only: strip_def enclosed_rev)
qed

lemma lower_digit_not_us: "is_lower a \<or> is_digit a \<Longrightarrow> a \<noteq> CHR ''_''"
  by (auto simp: is_lower_def is_digit_def code_def)

lemma upper_not_us: "is_upper b \<Longrightarrow> b \<noteq> CHR ''_''"
  by (auto simp: is_upper_def code_def)

lemma enclosed_split_camel:
  "enclosed_between p s q \<Longrightarrow> enclosed_between p (split_camel s) q"
proof (induction s arbitrary: p rule: split_camel.induct)
  case (1 a b cs)
  from 1(3) have l: "link p a" and lab: "link a b" and e: "enclosed_between b cs q" by simp_all
  show ?case
  proof (cases "(is_lower a \<or> is_digit a) \<and> is_upper b")
    case True
    then have a: "a \<noteq> CHR ''_''" and b: "b \<noteq> CHR ''_''"
      using lower_digit_not_us upper_not_us by blast+
    have "enclosed_between CHR '' '' (b # cs) q"
      using b e by (simp add: link_nonword blank_not_word)
    with 1(1) True have "enclosed_between CHR '' '' (split_camel (b # cs)) q" by blast
    moreover have "link a CHR '' ''" using a by (simp add: link_nonword_right blank_not_word)
    ultimately show ?thesis using True l by simp
  next
    case False
    from lab e have "enclosed_between a (b # cs) q" by simp
    with 1(2) False have "enclosed_between a (split_camel (b # cs)) q" by blast
    moreover from False have "split_camel (a # b # cs) = a # split_camel (b # cs)" by auto
    ultimately show ?thesis using l by simp
  qed
qed simp_all

lemma enclosed_pieces:
  "enclosed_between p s q \<Longrightarrow> \<not> is_word q
   \<Longrightarrow> (case split_on CHR '' '' s of
          [] \<Rightarrow> True
        | first # others \<Rightarrow>
            enclosed_between p first CHR '' ''
            \<and> (\<forall>r\<in>set others. enclosed_between CHR '' '' r CHR '' ''))"
proof (induction s arbitrary: p)
  case Nil
  from Nil have "p \<noteq> CHR ''_''" by (simp add: link_nonword_right)
  then show ?case by (simp add: link_nonword_right blank_not_word)
next
  case (Cons c cs)
  from Cons.prems have l: "link p c" and e: "enclosed_between c cs q" by simp_all
  obtain first others where sp: "split_on CHR '' '' cs = first # others"
    using split_on_not_Nil [of "CHR '' ''" cs] by (cases "split_on CHR '' '' cs") auto
  from Cons.IH [OF e Cons.prems(2)] sp
  have ih: "enclosed_between c first CHR '' ''"
    "\<forall>r\<in>set others. enclosed_between CHR '' '' r CHR '' ''" by simp_all
  show ?case
  proof (cases "c = CHR '' ''")
    case True
    with l have "enclosed_between p [] CHR '' ''" by simp
    with True ih sp show ?thesis by simp
  next
    case False
    with l ih sp show ?thesis by simp
  qed
qed

lemma raw_part_enclosed:
  assumes "underscores_enclosed x" and "p \<in> set (raw_parts x)"
  shows "enclosed_between CHR '' '' p CHR '' ''"
proof -
  let ?s3 = "split_camel (strip (sub_runs is_space CHR '' '' (blank_symbols x)))"
  have "enclosed_between CHR '' '' (blank_symbols x) CHR '' ''"
    using assms(1) by (simp only: underscores_enclosed_def enclosed_blank_symbols)
  then have "enclosed_between CHR '' '' (sub_runs is_space CHR '' '' (blank_symbols x)) CHR '' ''"
    by (rule enclosed_sub_runs)
  then have "enclosed_between CHR '' '' (strip (sub_runs is_space CHR '' '' (blank_symbols x))) CHR '' ''"
    by (rule enclosed_strip)
  then have e3: "enclosed_between CHR '' '' ?s3 CHR '' ''" by (rule enclosed_split_camel)
  obtain first others where sp: "split_on CHR '' '' ?s3 = first # others"
    using split_on_not_Nil [of "CHR '' ''" ?s3] by (cases "split_on CHR '' '' ?s3") auto
  from enclosed_pieces [OF e3 blank_not_word] sp
  have "\<forall>r\<in>set (first # others). enclosed_between CHR '' '' r CHR '' ''" by simp
  moreover have "p \<in> set (first # others)"
  proof -
    from assms(2) have "p \<in> set (split_on CHR '' '' ?s3)" by (simp add: raw_parts_def)
    then show ?thesis by (simp only: sp)
  qed
  ultimately show ?thesis by blast
qed

lemma enclosed_ends:
  assumes "enclosed_between CHR '' '' p CHR '' ''" and "p \<noteq> []"
  shows "hd p \<noteq> CHR ''_''" and "last p \<noteq> CHR ''_''"
proof -
  from assms obtain c cs where p: "p = c # cs" by (cases p) auto
  with assms(1) show "hd p \<noteq> CHR ''_''" by (simp add: link_nonword blank_not_word)
  from assms(1) have "enclosed_between CHR '' '' (rev p) CHR '' ''" by (simp only: enclosed_rev)
  moreover obtain d ds where r: "rev p = d # ds" using assms(2) by (cases "rev p") auto
  ultimately have "d \<noteq> CHR ''_''" by (simp add: link_nonword blank_not_word)
  moreover have "last p = d" using r by (metis last_rev list.sel(1) rev_rev_ident)
  ultimately show "last p \<noteq> CHR ''_''" by simp
qed

lemma doubled_Cons_other: "a \<noteq> CHR ''_'' \<Longrightarrow> doubled_underscore (a # s) = doubled_underscore s"
  by (cases s) auto

lemma sub_runs_Cons_keep: "\<not> q c \<Longrightarrow> sub_runs q r (c # cs) = c # sub_runs q r cs"
  by simp

lemma sub_runs_after_run_not_leading:
  "\<not> leading_underscore (sub_runs (\<lambda>c. c = CHR ''_'' \<or> is_space c) CHR ''_''
       (dropWhile (\<lambda>c. c = CHR ''_'' \<or> is_space c) cs))"
proof (cases "dropWhile (\<lambda>c. c = CHR ''_'' \<or> is_space c) cs")
  case Nil
  then show ?thesis by (simp only: sub_runs.simps leading_underscore.simps) simp
next
  case (Cons d ds)
  then have "dropWhile (\<lambda>c. c = CHR ''_'' \<or> is_space c) cs \<noteq> []" by simp
  then have "\<not> (\<lambda>c. c = CHR ''_'' \<or> is_space c) (hd (dropWhile (\<lambda>c. c = CHR ''_'' \<or> is_space c) cs))"
    by (rule hd_dropWhile)
  then have "\<not> (d = CHR ''_'' \<or> is_space d)" by (simp only: Cons list.sel simp_thms)
  then show ?thesis by (simp only: Cons) simp
qed

lemma sub_runs_not_doubled:
  "\<not> doubled_underscore (sub_runs (\<lambda>c. c = CHR ''_'' \<or> is_space c) CHR ''_'' s)"
proof (induction "\<lambda>c. c = CHR ''_'' \<or> is_space c" "CHR ''_''" s rule: sub_runs.induct)
  case 1
  then show ?case by simp
next
  case (2 c cs)
  show ?case
  proof (cases "c = CHR ''_'' \<or> is_space c")
    case True
    with 2(1) have "\<not> doubled_underscore (sub_runs (\<lambda>c. c = CHR ''_'' \<or> is_space c) CHR ''_''
       (dropWhile (\<lambda>c. c = CHR ''_'' \<or> is_space c) cs))" by blast
    with True sub_runs_after_run_not_leading [of cs] show ?thesis
      by (simp add: doubled_Cons_us)
  next
    case False
    with 2(2) have "\<not> doubled_underscore (sub_runs (\<lambda>c. c = CHR ''_'' \<or> is_space c) CHR ''_'' cs)"
      by blast
    with False show ?thesis by (simp add: doubled_Cons_other)
  qed
qed

lemma sub_runs_last:
  "s \<noteq> [] \<Longrightarrow> \<not> q (last s)
   \<Longrightarrow> sub_runs q r s \<noteq> [] \<and> last (sub_runs q r s) = last s"
proof (induction q r s rule: sub_runs.induct)
  case (1 q r)
  then show ?case by simp
next
  case (2 q r c cs)
  show ?case
  proof (cases "q c")
    case True
    with 2(4) have ne: "cs \<noteq> []" by auto
    with 2(4) have nl: "\<not> q (last cs)" by simp
    have "\<not> (\<forall>x\<in>set cs. q x)" using ne nl last_in_set by blast
    then have dne: "dropWhile q cs \<noteq> []" by (simp only: dropWhile_eq_Nil_conv simp_thms)
    have dl: "last (dropWhile q cs) = last cs"
      using dne by (metis last_appendR takeWhile_dropWhile_id)
    from 2(1) [OF True dne] nl dl
    have "sub_runs q r (dropWhile q cs) \<noteq> [] \<and> last (sub_runs q r (dropWhile q cs)) = last cs"
      by simp
    with True ne show ?thesis by simp
  next
    case False
    show ?thesis
    proof (cases "cs = []")
      case True
      with False show ?thesis by simp
    next
      case ne: False
      with 2(4) have "\<not> q (last cs)" by simp
      from 2(2) [OF False ne this] False ne show ?thesis by simp
    qed
  qed
qed

lemma code_eq_iff: "(code a = code b) = (a = b)"
  by (simp add: code_def)

lemma lower_char_us_iff: "(lower_char c = CHR ''_'') = (c = CHR ''_'')"
proof -
  have "(code (lower_char c) = 95) = (code c = 95)"
    by (auto simp: lower_char_def is_upper_def code_def)
  then show ?thesis using code_eq_iff [of _ "CHR ''_''"] by (simp add: code_us)
qed

lemma leading_map_lower: "leading_underscore (map lower_char s) = leading_underscore s"
  by (cases s) (simp_all add: lower_char_us_iff)

lemma trailing_map_lower: "trailing_underscore (map lower_char s) = trailing_underscore s"
  by (simp add: trailing_underscore_def rev_map leading_map_lower)

lemma doubled_map_lower: "doubled_underscore (map lower_char s) = doubled_underscore s"
  by (induction s rule: doubled_underscore.induct) (simp_all add: lower_char_us_iff)

lemma join_clean:
  assumes "\<forall>t\<in>set ts. t \<noteq> [] \<and> \<not> leading_underscore t \<and> \<not> trailing_underscore t
                       \<and> \<not> doubled_underscore t"
  shows "\<not> leading_underscore (join ''_'' ts) \<and> \<not> trailing_underscore (join ''_'' ts)
         \<and> \<not> doubled_underscore (join ''_'' ts)"
  using assms
proof (induction "''_''" ts rule: join.induct)
  case 1
  then show ?case by (simp add: trailing_underscore_def)
next
  case (2 p)
  then show ?case by simp
next
  case (3 p q ps)
  let ?r = "join ''_'' (q # ps)"
  from 3 have ih: "\<not> leading_underscore ?r" "\<not> trailing_underscore ?r" "\<not> doubled_underscore ?r"
    by simp_all
  from 3 have p: "p \<noteq> []" and g: "\<not> leading_underscore p" "\<not> trailing_underscore p"
    "\<not> doubled_underscore p" by simp_all
  from 3 have "?r \<noteq> []" using join_Nil_iff [of "q # ps" "''_''"] by simp
  have e: "join ''_'' (p # q # ps) = p @ (CHR ''_'' # ?r)" by simp
  have "\<not> leading_underscore (p @ (CHR ''_'' # ?r))" using p g by (simp add: leading_append)
  moreover have "\<not> trailing_underscore (p @ (CHR ''_'' # ?r))"
    using ih \<open>?r \<noteq> []\<close> by (simp add: trailing_underscore_iff)
  moreover have "\<not> doubled_underscore (p @ (CHR ''_'' # ?r))"
    using ih g by (simp add: doubled_append doubled_Cons_us)
  ultimately show ?case by (simp only: e) simp
qed

lemma token_clean:
  assumes "underscores_enclosed x" and "p \<in> set (raw_parts x)"
  shows "sanitize_part p \<noteq> [] \<and> \<not> leading_underscore (sanitize_part p)
         \<and> \<not> trailing_underscore (sanitize_part p) \<and> \<not> doubled_underscore (sanitize_part p)"
proof -
  let ?q = "\<lambda>c. c = CHR ''_'' \<or> is_space c"
  let ?t = "sub_runs ?q CHR ''_'' p"
  have ne: "p \<noteq> []" using assms(2) by (rule raw_part_nonempty)
  have en: "enclosed_between CHR '' '' p CHR '' ''" using assms by (rule raw_part_enclosed)
  obtain c cs where p: "p = c # cs" using ne by (cases p) auto
  have w: "\<And>d. d \<in> set p \<Longrightarrow> \<not> is_space d"
    using raw_part_chars [OF assms(2)] space_not_word by blast
  have "c \<noteq> CHR ''_''" using enclosed_ends(1) [OF en ne] p by simp
  moreover have "\<not> is_space c" using w [of c] p by simp
  ultimately have t: "?t = c # sub_runs ?q CHR ''_'' cs" by (simp add: p)
  then have lead: "\<not> leading_underscore ?t" using \<open>c \<noteq> CHR ''_''\<close> by simp
  have "last p \<noteq> CHR ''_''" using en ne by (rule enclosed_ends(2))
  moreover have "\<not> is_space (last p)" using w [of "last p"] ne by simp
  ultimately have "\<not> ?q (last p)" by simp
  with ne have lt: "?t \<noteq> [] \<and> last ?t = last p" by (rule sub_runs_last)
  then have ne_t: "?t \<noteq> []" by simp
  from lt \<open>last p \<noteq> CHR ''_''\<close> have trail: "\<not> trailing_underscore ?t"
    by (simp add: trailing_underscore_iff)
  have dbl: "\<not> doubled_underscore ?t" by (rule sub_runs_not_doubled)
  have sp: "sanitize_part p = map lower_char ?t" by (simp add: sanitize_part_def)
  show ?thesis
    by (simp only: sp leading_map_lower trailing_map_lower doubled_map_lower map_is_Nil_conv
          lead trail dbl ne_t simp_thms)
qed

lemma to_snake_case_enclosed_clean:
  assumes "underscores_enclosed x"
  shows "\<not> leading_underscore (to_snake_case (Some x))
       \<and> \<not> trailing_underscore (to_snake_case (Some x))
       \<and> \<not> doubled_underscore (to_snake_case (Some x))"
proof -
  have "\<forall>t\<in>set (map sanitize_part (raw_parts x)).
          t \<noteq> [] \<and> \<not> leading_underscore t \<and> \<not> trailing_underscore t \<and> \<not> doubled_underscore t"
    using token_clean [OF assms] by auto
  then show ?thesis by (simp only: to_snake_case_Some) (rule join_clean)
qed

text \<open>
  C3, as stated, fails: the normalizer keeps an underscore that is the first or the last
  word character of the input, and an underscore next to a piece boundary meets the
  joining underscore. The inputs \<open>_id\<close>, \<open>id_\<close> and \<open>Score_(Median)\<close> give \<open>_id\<close>,
  \<open>id_\<close> and \<open>score__median\<close>.
\<close>

theorem to_snake_case_underscore_counterexample:
  "leading_underscore (to_snake_case (Some ''_id''))
   \<and> trailing_underscore (to_snake_case (Some ''id_''))
   \<and> doubled_underscore (to_snake_case (Some ''Score_(Median)''))"
  by code_simp

text \<open>
  C3, amended: for every input string in which every underscore stands immediately
  between two word characters (letters, digits or underscores), the output of the
  header normalizer has no leading underscore, no trailing underscore and no two
  consecutive underscores; and for every input string, the output is empty exactly
  when the input has no alphanumeric character and no underscore (the null input gives
  the empty string as well).
\<close>

theorem to_snake_case_underscores:
  "to_snake_case None = []
   \<and> (to_snake_case (Some x) = [] \<longleftrightarrow> (\<forall>c\<in>set x. \<not> is_word c))
   \<and> (underscores_enclosed x \<longrightarrow>
        \<not> leading_underscore (to_snake_case (Some x))
        \<and> \<not> trailing_underscore (to_snake_case (Some x))
        \<and> \<not> doubled_underscore (to_snake_case (Some x)))"
proof -
  have "to_snake_case None = []" by (simp add: to_snake_case_def)
  then show ?thesis
    using to_snake_case_empty_iff [of x] to_snake_case_enclosed_clean [of x] by blast
qed

text \<open>Witness for C3, amended: in the header \<open>facility_id\<close> the underscore stands between
  two letters; its normal form is not empty and has no stray underscore.\<close>

theorem to_snake_case_underscores_witness:
  "underscores_enclosed ''facility_id''
   \<and> \<not> (\<forall>c\<in>set ''facility_id''. \<not> is_word c)
   \<and> to_snake_case (Some ''facility_id'') \<noteq> []
   \<and> \<not> leading_underscore (to_snake_case (Some ''facility_id''))
   \<and> \<not> trailing_underscore (to_snake_case (Some ''facility_id''))
   \<and> \<not> doubled_underscore (to_snake_case (Some ''facility_id''))"
proof -
  have h: "underscores_enclosed ''facility_id''" by code_simp
  have "is_word CHR ''f''" by code_simp
  then have w: "\<not> (\<forall>c\<in>set ''facility_id''. \<not> is_word c)" by simp
  from to_snake_case_underscores [of "''facility_id''"] h w show ?thesis by blast
qed

lemma lower_char_fixed_not_upper: "lower_char c = c \<Longrightarrow> \<not> is_upper c"
  using lower_char_not_upper [of c] by auto

lemma lower_char_idem: "lower_char (lower_char c) = lower_char c"
  by (auto simp: lower_char_def is_upper_def code_def)

lemma lower_char_us: "lower_char CHR ''_'' = CHR ''_''"
  by code_simp

lemma sub_runs_no_doubled:
  assumes "\<forall>c\<in>set s. \<not> is_space c" and "\<not> doubled_underscore s"
  shows "sub_runs (\<lambda>c. c = CHR ''_'' \<or> is_space c) CHR ''_'' s = s"
  using assms
proof (induction s rule: doubled_underscore.induct)
  case (1 a b cs)
  then have ih: "sub_runs (\<lambda>c. c = CHR ''_'' \<or> is_space c) CHR ''_'' (b # cs) = b # cs"
    by simp
  show ?case
  proof (cases "a = CHR ''_''")
    case True
    with 1(3) have "b \<noteq> CHR ''_''" by simp
    moreover from 1(2) have "\<not> is_space b" by simp
    ultimately have "dropWhile (\<lambda>c. c = CHR ''_'' \<or> is_space c) (b # cs) = b # cs" by simp
    with True ih show ?thesis by simp
  next
    case False
    moreover from 1(2) have "\<not> is_space a" by simp
    ultimately show ?thesis using ih by simp
  qed
next
  case (2 a)
  then show ?case by simp
next
  case 3
  then show ?case by simp
qed

text \<open>A string of lower-case word characters without doubled underscore is its own
  normal form; hence the normalizer is idempotent on every input without underscore.\<close>

lemma to_snake_case_fixed:
  assumes w: "\<forall>c\<in>set y. is_word c \<and> lower_char c = c" and d: "\<not> doubled_underscore y"
  shows "to_snake_case (Some y) = y"
proof (cases "y = []")
  case True
  then show ?thesis by (simp add: to_snake_case_def strip_def)
next
  case False
  have ns: "\<forall>c\<in>set y. \<not> is_space c" using w space_not_word by blast
  have nu: "\<forall>c\<in>set y. \<not> is_upper c" using w lower_char_fixed_not_upper by blast
  have nb: "CHR '' '' \<notin> set y" using ns blank_is_space by blast
  have 1: "blank_symbols y = y" using w by (simp add: blank_symbols_def map_idI)
  have 2: "sub_runs is_space CHR '' '' y = y" using ns by (rule sub_runs_id)
  have 3: "strip y = y" using ns by (rule strip_id)
  have 4: "split_camel y = y" using nu by (rule split_camel_id)
  have 5: "split_on CHR '' '' y = [y]" using nb by (rule split_on_none)
  have rp: "raw_parts y = [y]" using False by (simp add: raw_parts_def 1 2 3 4 5)
  have "sub_runs (\<lambda>c. c = CHR ''_'' \<or> is_space c) CHR ''_'' y = y"
    using ns d by (rule sub_runs_no_doubled)
  then have "sanitize_part y = map lower_char y" by (simp add: sanitize_part_def)
  also have "\<dots> = y" using w by (simp add: map_idI)
  finally show ?thesis by (simp add: to_snake_case_Some rp)
qed

lemma set_join: "set (join sep ts) \<subseteq> set sep \<union> \<Union> (set ` set ts)"
  by (induction sep ts rule: join.induct) auto

lemma alnum_is_word: "is_alnum c \<Longrightarrow> is_word c"
  by (simp add: is_word_def)

lemma us_is_word: "is_word CHR ''_''"
  by (simp add: is_word_def)

lemma to_snake_case_idempotent_without_underscore:
  assumes "CHR ''_'' \<notin> set x"
  shows "to_snake_case (Some (to_snake_case (Some x))) = to_snake_case (Some x)"
proof (rule to_snake_case_fixed)
  let ?ts = "map sanitize_part (raw_parts x)"
  show "\<forall>c\<in>set (to_snake_case (Some x)). is_word c \<and> lower_char c = c"
  proof
    fix c assume "c \<in> set (to_snake_case (Some x))"
    then have "c \<in> set ''_'' \<union> \<Union> (set ` set ?ts)"
      using set_join [of "''_''" ?ts] by (auto simp: to_snake_case_Some)
    then consider "c = CHR ''_''" | t where "t \<in> set ?ts" "c \<in> set t" by auto
    then show "is_word c \<and> lower_char c = c"
    proof cases
      case 1
      then show ?thesis by (simp add: us_is_word lower_char_us)
    next
      case 2
      from 2(1) obtain p where p: "p \<in> set (raw_parts x)" "t = sanitize_part p" by auto
      have al: "\<forall>c\<in>set p. is_alnum c"
      proof
        fix c' assume "c' \<in> set p"
        with p(1) have "c' \<in> set x \<and> is_word c'" by (rule raw_part_chars)
        with assms show "is_alnum c'" using word_not_us_alnum by auto
      qed
      then have "t = map lower_char p" using p(2) by (simp add: sanitize_alnum)
      with 2(2) obtain c' where c': "c' \<in> set p" "c = lower_char c'" by auto
      with al show ?thesis by (simp add: lower_char_idem lower_char_alnum alnum_is_word)
    qed
  qed
  show "\<not> doubled_underscore (to_snake_case (Some x))"
    using to_snake_case_no_underscore_input [OF assms] by simp
qed

text \<open>
  C4: the header normalizer is idempotent and deterministic. Determinism holds, the
  normalizer being a function. Idempotence fails on the code at the header
  \<open>Score_(Median)\<close>: its normal form is \<open>score__median\<close>, whose normal form is
  \<open>score_median\<close>. Each piece has its underscore runs collapsed before the pieces are
  joined, so a run that spans a piece boundary survives the first pass and is
  collapsed by the second. On inputs without underscore the normalizer is idempotent,
  as shown above.
\<close>

theorem to_snake_case_not_idempotent:
  "to_snake_case (Some ''Score_(Median)'') = ''score__median''
   \<and> to_snake_case (Some (to_snake_case (Some ''Score_(Median)''))) = ''score_median''"
  by code_simp

section \<open>Properties of the validator probe\<close>

lemma head_info_cases:
  "head_info ev url w =
     (case net ev (HEAD url) of
        Inr resp \<Rightarrow> (Inr (response_info resp), send (HEAD url) w)
      | Inl e \<Rightarrow>
          (case net ev (GET_limit1 url) of
             Inr resp \<Rightarrow> (Inr (response_info resp), send (GET_limit1 url) (send (HEAD url) w))
           | Inl e' \<Rightarrow>
               (Inr \<lparr>v_last_modified = None, v_etag = None\<rparr>,
                send (GET_limit1 url) (send (HEAD url) w))))"
  by (simp add: head_info_def)

lemma head_info_returns: "\<exists>info. fst (head_info ev url w) = Inr info"
  by (simp add: head_info_def split: sum.splits)

lemma head_info_files: "files (snd (head_info ev url w)) = files w"
  by (simp add: head_info_def send_def split: sum.splits)

lemma head_info_requests:
  "requests (snd (head_info ev url w)) =
     requests w @ (case net ev (HEAD url) of Inr resp \<Rightarrow> [HEAD url] | Inl e \<Rightarrow> [HEAD url, GET_limit1 url])"
  by (simp add: head_info_def send_def split: sum.splits)

text \<open>The probe always returns a validator pair and leaves the files alone. A HEAD
  attempt that returns is final, whatever its status; a HEAD attempt that raises is
  followed by exactly one fallback request; when both attempts raise, the result is the
  empty pair.\<close>

lemma head_info_behaviour:
  "(\<exists>info. fst (head_info ev url w) = Inr info)
   \<and> files (snd (head_info ev url w)) = files w
   \<and> (\<forall>resp. net ev (HEAD url) = Inr resp \<longrightarrow>
         head_info ev url w = (Inr (response_info resp), send (HEAD url) w))
   \<and> (\<forall>e. net ev (HEAD url) = Inl e \<longrightarrow>
         requests (snd (head_info ev url w)) = requests w @ [HEAD url, GET_limit1 url])
   \<and> (\<forall>e resp. net ev (HEAD url) = Inl e \<and> net ev (GET_limit1 url) = Inr resp \<longrightarrow>
         fst (head_info ev url w) = Inr (response_info resp))
   \<and> (\<forall>e e'. net ev (HEAD url) = Inl e \<and> net ev (GET_limit1 url) = Inl e' \<longrightarrow>
         fst (head_info ev url w) = Inr \<lparr>v_last_modified = None, v_etag = None\<rparr>)"
  by (auto simp: head_info_def send_def split: sum.splits)

text \<open>
  C7: the probe never raises, and when the HEAD attempt fails for any reason, a
  disallowed method included, exactly one fallback request is made. On the code a HEAD
  attempt fails only by raising: the status of the response is never looked at. For a
  server that answers HEAD with 405 and would answer the fallback request with the
  etag \<open>v2\<close>, the probe sends the HEAD request only and returns the empty validator
  pair.
\<close>

theorem head_info_no_fallback_on_405:
  "(case net (demo_env (net_head_405 (Some ''v2'') None)) (HEAD demo_url) of
      Inr resp \<Rightarrow> status resp = 405 | Inl e \<Rightarrow> False)
   \<and> (case net (demo_env (net_head_405 (Some ''v2'') None)) (GET_limit1 demo_url) of
        Inr resp \<Rightarrow> status resp = 200
                    \<and> response_info resp = \<lparr>v_last_modified = None, v_etag = Some ''v2''\<rparr>
      | Inl e \<Rightarrow> False)
   \<and> fst (head_info (demo_env (net_head_405 (Some ''v2'') None)) demo_url demo_world)
       = Inr \<lparr>v_last_modified = None, v_etag = None\<rparr>
   \<and> requests (snd (head_info (demo_env (net_head_405 (Some ''v2'') None)) demo_url demo_world))
       = [HEAD demo_url]"
  by code_simp

section \<open>Properties of the sync orchestrator\<close>

lemma process_distribution_unfold:
  assumes "head_info ev (d_url d) w = (Inr info, w1)"
  shows "process_distribution ev dataset_id d (metadata, w) =
     (let prev = map_of metadata (ledger_key dataset_id (d_url d));
          prev_etag = (case prev of None \<Rightarrow> None | Some en \<Rightarrow> e_etag en);
          prev_lm = (case prev of None \<Rightarrow> None | Some en \<Rightarrow> e_last_modified en)
      in if truthy (v_etag info) \<and> truthy prev_etag \<and> v_etag info = prev_etag
         then (Inr SkippedUnchanged, metadata, w1)
         else if truthy (v_last_modified info) \<and> truthy prev_lm \<and> v_last_modified info = prev_lm
         then (Inr SkippedUnchanged, metadata, w1)
         else (case fetch_and_process ev (d_url d) (dist_filename d)
                      (dist_dest_path dataset_id d) info w1 of
                 (Inr entry, w2) \<Rightarrow>
                   (Inr Processed, AList.update (ledger_key dataset_id (d_url d)) entry metadata, w2)
               | (Inl e, w2) \<Rightarrow> (Inr Failed, metadata, w2)))"
  using assms by (simp add: process_distribution_def Let_def)

lemma head_info_pair:
  "fst (head_info ev url w) = Inr info \<Longrightarrow> head_info ev url w = (Inr info, snd (head_info ev url w))"
  by (metis prod.collapse)

lemma process_distribution_returns:
  "\<exists>out. fst (process_distribution ev dataset_id d st) = Inr out"
proof -
  obtain metadata w where st: "st = (metadata, w)" by (cases st)
  obtain info where "fst (head_info ev (d_url d) w) = Inr info"
    using head_info_returns by blast
  then have "head_info ev (d_url d) w = (Inr info, snd (head_info ev (d_url d) w))"
    by (rule head_info_pair)
  then show ?thesis unfolding st
    by (simp add: process_distribution_unfold Let_def split: prod.splits sum.splits)
qed

text \<open>
  C2: if the ledger holds a non-empty etag \<open>E\<close> for the key of a distribution and the
  probe returns the same etag, the orchestration ends in \<open>SkippedUnchanged\<close>: the ledger
  is returned as it was, no file is touched, and the requests sent are those of the
  probe only, without the body download \<open>GET url\<close>.
\<close>

theorem etag_unchanged_skips:
  assumes "map_of metadata (ledger_key dataset_id (d_url d)) = Some en"
    and "e_etag en = Some E" and "E \<noteq> []"
    and "fst (head_info ev (d_url d) w) = Inr info" and "v_etag info = Some E"
  shows "\<exists>w' rs. process_distribution ev dataset_id d (metadata, w)
                   = (Inr SkippedUnchanged, metadata, w')
               \<and> files w' = files w
               \<and> requests w' = requests w @ rs \<and> GET (d_url d) \<notin> set rs"
proof -
  let ?w1 = "snd (head_info ev (d_url d) w)"
  from assms(4) have hi: "head_info ev (d_url d) w = (Inr info, ?w1)" by (rule head_info_pair)
  have "process_distribution ev dataset_id d (metadata, w) = (Inr SkippedUnchanged, metadata, ?w1)"
    using assms(1,2,3,5) by (simp add: process_distribution_unfold [OF hi] truthy_def)
  moreover have "files ?w1 = files w" by (rule head_info_files)
  moreover have "\<exists>rs. requests ?w1 = requests w @ rs \<and> GET (d_url d) \<notin> set rs"
    by (simp add: head_info_requests split: sum.splits)
  ultimately show ?thesis by blast
qed

text \<open>Witness for C2: the ledger stores etag \<open>v1\<close>, the server answers with etag
  \<open>v1\<close>.\<close>

theorem etag_unchanged_skips_witness:
  "map_of (demo_ledger (Some ''v1'') None) (ledger_key ''ds1'' (d_url demo_dist))
     = Some (demo_entry (Some ''v1'') None)
   \<and> e_etag (demo_entry (Some ''v1'') None) = Some ''v1''
   \<and> fst (head_info (demo_env (net_ok (Some ''v1'') None)) (d_url demo_dist) demo_world)
       = Inr \<lparr>v_last_modified = None, v_etag = Some ''v1''\<rparr>
   \<and> (\<exists>w' rs. process_distribution (demo_env (net_ok (Some ''v1'') None)) ''ds1'' demo_dist
                  (demo_ledger (Some ''v1'') None, demo_world)
                 = (Inr SkippedUnchanged, demo_ledger (Some ''v1'') None, w')
              \<and> files w' = files demo_world
              \<and> requests w' = requests demo_world @ rs \<and> GET (d_url demo_dist) \<notin> set rs)"
proof -
  have a: "map_of (demo_ledger (Some ''v1'') None) (ledger_key ''ds1'' (d_url demo_dist))
     = Some (demo_entry (Some ''v1'') None)" by code_simp
  have b: "e_etag (demo_entry (Some ''v1'') None) = Some ''v1''" by code_simp
  have c: "''v1'' \<noteq> []" by simp
  have d: "fst (head_info (demo_env (net_ok (Some ''v1'') None)) (d_url demo_dist) demo_world)
       = Inr \<lparr>v_last_modified = None, v_etag = Some ''v1''\<rparr>" by code_simp
  have e: "v_etag \<lparr>v_last_modified = None, v_etag = Some ''v1''\<rparr> = Some ''v1''" by simp
  from etag_unchanged_skips [OF a b c d e] a b d show ?thesis by blast
qed

text \<open>
  C1, as stated, fails: the ledger stores etag \<open>v1\<close>, the probe returns etag \<open>v2\<close> and
  the same last-modified value as the ledger, and the orchestration ends in
  \<open>SkippedUnchanged\<close> without reaching \<open>Fetching\<close>. A differing etag falls through to
  the last-modified comparison, which can still skip.
\<close>

theorem etag_priority_counterexample:
  "map_of (demo_ledger (Some ''v1'') (Some ''Tue, 01 Oct 2024 00:00:00 GMT''))
       (ledger_key ''ds1'' (d_url demo_dist))
     = Some (demo_entry (Some ''v1'') (Some ''Tue, 01 Oct 2024 00:00:00 GMT''))
   \<and> fst (head_info (demo_env (net_ok (Some ''v2'') (Some ''Tue, 01 Oct 2024 00:00:00 GMT'')))
            (d_url demo_dist) demo_world)
       = Inr \<lparr>v_last_modified = Some ''Tue, 01 Oct 2024 00:00:00 GMT'', v_etag = Some ''v2''\<rparr>
   \<and> fst (process_distribution
            (demo_env (net_ok (Some ''v2'') (Some ''Tue, 01 Oct 2024 00:00:00 GMT''))) ''ds1''
            demo_dist
            (demo_ledger (Some ''v1'') (Some ''Tue, 01 Oct 2024 00:00:00 GMT''), demo_world))
       = Inr SkippedUnchanged
   \<and> \<not> reaches_fetching SkippedUnchanged"
  by code_simp

text \<open>
  C1, amended: for every key whose ledger entry stores an etag, if the probe returns a
  non-empty etag that differs from the stored one, the orchestration reaches \<open>Fetching\<close>
  exactly when the probe's last-modified value is absent, empty or different from the
  stored last-modified value; when it is non-empty and equal to the stored one, the
  orchestration ends in \<open>SkippedUnchanged\<close>.
\<close>

theorem etag_changed_fetches_unless_last_modified_unchanged:
  assumes "map_of metadata (ledger_key dataset_id (d_url d)) = Some en"
    and "e_etag en = Some E"
    and "fst (head_info ev (d_url d) w) = Inr info"
    and "v_etag info = Some E'" and "E' \<noteq> []" and "E' \<noteq> E"
  shows "\<exists>out st. process_distribution ev dataset_id d (metadata, w) = (Inr out, st)
           \<and> (reaches_fetching out \<longleftrightarrow>
                \<not> (truthy (v_last_modified info) \<and> v_last_modified info = e_last_modified en))"
proof -
  let ?w1 = "snd (head_info ev (d_url d) w)"
  from assms(3) have hi: "head_info ev (d_url d) w = (Inr info, ?w1)" by (rule head_info_pair)
  show ?thesis
    using assms(1,2,4,5,6)
    by (auto simp: process_distribution_unfold [OF hi] reaches_fetching_def Let_def
             split: prod.splits sum.splits)
qed

text \<open>Witness for C1, amended: stored etag \<open>v1\<close>, probed etag \<open>v2\<close>, no last-modified
  value on either side: the download is attempted.\<close>

theorem etag_changed_fetches_witness:
  "map_of (demo_ledger (Some ''v1'') None) (ledger_key ''ds1'' (d_url demo_dist))
     = Some (demo_entry (Some ''v1'') None)
   \<and> e_etag (demo_entry (Some ''v1'') None) = Some ''v1''
   \<and> fst (head_info (demo_env (net_ok (Some ''v2'') None)) (d_url demo_dist) demo_world)
       = Inr \<lparr>v_last_modified = None, v_etag = Some ''v2''\<rparr>
   \<and> ''v2'' \<noteq> ''v1''
   \<and> (\<exists>out st. process_distribution (demo_env (net_ok (Some ''v2'') None)) ''ds1'' demo_dist
                   (demo_ledger (Some ''v1'') None, demo_world) = (Inr out, st)
               \<and> reaches_fetching out)"
proof -
  have a: "map_of (demo_ledger (Some ''v1'') None) (ledger_key ''ds1'' (d_url demo_dist))
     = Some (demo_entry (Some ''v1'') None)" by code_simp
  have b: "e_etag (demo_entry (Some ''v1'') None) = Some ''v1''" by code_simp
  have c: "fst (head_info (demo_env (net_ok (Some ''v2'') None)) (d_url demo_dist) demo_world)
       = Inr \<lparr>v_last_modified = None, v_etag = Some ''v2''\<rparr>" by code_simp
  have d: "v_etag \<lparr>v_last_modified = None, v_etag = Some ''v2''\<rparr> = Some ''v2''" by simp
  have e: "''v2'' \<noteq> []" by simp
  have f: "''v2'' \<noteq> ''v1''" by simp
  have g: "\<not> truthy (v_last_modified \<lparr>v_last_modified = None, v_etag = Some ''v2''\<rparr>)"
    by (simp add: truthy_def)
  from etag_changed_fetches_unless_last_modified_unchanged [OF a b c d e f] g a b c f
  show ?thesis by blast
qed

text \<open>
  C6: if the orchestration for a key ends in \<open>Failed\<close>, the ledger it returns is the
  ledger it was given: no entry is updated, created or deleted, for this key or any
  other.
\<close>

theorem failed_leaves_ledger:
  assumes "process_distribution ev dataset_id d (metadata, w) = (Inr Failed, metadata', w')"
  shows "metadata' = metadata"
proof -
  obtain info where "fst (head_info ev (d_url d) w) = Inr info"
    using head_info_returns by blast
  then have hi: "head_info ev (d_url d) w = (Inr info, snd (head_info ev (d_url d) w))"
    by (rule head_info_pair)
  show ?thesis
    using assms
    by (simp add: process_distribution_unfold [OF hi] Let_def split: if_splits prod.splits sum.splits)
qed

text \<open>Witness for C6: the server answers 500 to the download; the orchestration ends in
  \<open>Failed\<close> and the ledger is the one given.\<close>

theorem failed_leaves_ledger_witness:
  "fst (process_distribution (demo_env net_500) ''ds1'' demo_dist
          (demo_ledger (Some ''v1'') None, demo_world)) = Inr Failed
   \<and> fst (snd (process_distribution (demo_env net_500) ''ds1'' demo_dist
          (demo_ledger (Some ''v1'') None, demo_world))) = demo_ledger (Some ''v1'') None"
proof -
  let ?r = "process_distribution (demo_env net_500) ''ds1'' demo_dist
          (demo_ledger (Some ''v1'') None, demo_world)"
  have a: "fst ?r = Inr Failed" by code_simp
  then have "?r = (Inr Failed, fst (snd ?r), snd (snd ?r))" by (metis prod.collapse)
  from failed_leaves_ledger [OF this] a show ?thesis by simp
qed

lemma fetch_error_is_failed:
  assumes "head_info ev (d_url d) w = (Inr info, w1)"
    and "\<not> (truthy (v_etag info) \<and> v_etag info = (case map_of metadata (ledger_key dataset_id (d_url d)) of None \<Rightarrow> None | Some en \<Rightarrow> e_etag en))"
    and "\<not> (truthy (v_last_modified info) \<and> v_last_modified info = (case map_of metadata (ledger_key dataset_id (d_url d)) of None \<Rightarrow> None | Some en \<Rightarrow> e_last_modified en))"
    and "fetch_and_process ev (d_url d) (dist_filename d) (dist_dest_path dataset_id d) info w1 = (Inl e, w2)"
  shows "process_distribution ev dataset_id d (metadata, w) = (Inr Failed, metadata, w2)"
  using assms(2,3,4) by (auto simp: process_distribution_unfold [OF assms(1)] Let_def)

section \<open>Properties of the destination filename\<close>










section \<open>Properties of the download pipeline\<close>

text \<open>With a temporary sibling that differs from the destination, a download that
  returns has put the whole body at the destination and left no temporary file, and a
  download that raises has left the destination as it was.\<close>

lemma download_csv_distinct_tmp:
  assumes "with_suffix dest ''.tmp'' = Inr tmp" and "tmp \<noteq> dest"
    and "download_csv ev url dest w = (r, w')"
  shows "(case r of
            Inr u \<Rightarrow> (\<exists>resp. net ev (GET url) = Inr resp \<and> status resp < 400 \<and> complete resp
                        \<and> files w' dest = Some (write_chunks (chunks resp)))
                      \<and> files w' tmp = None
          | Inl e \<Rightarrow> files w' dest = files w dest
                      \<and> (\<not> unlink_fails ev tmp \<and> \<not> mkdir_fails ev (path_parent dest)
                             \<longrightarrow> files w' tmp = None))"
  using assms
  by (auto simp: download_csv_def download_body_def cleanup_tmp_def replace_file_def send_def
        Let_def split: sum.splits if_splits)


text \<open>
  C5: the download replaces the destination by one rename of the fully written
  temporary file and, on failure, leaves the prior destination untouched. The lemma
  above gives this whenever the temporary sibling differs from the destination. The
  sibling is \<open>dest_path.with_suffix(".tmp")\<close>, which is the destination itself when
  the destination already has the suffix \<open>.tmp\<close>. For the catalog filename
  \<open>hospitals.tmp\<close> and a prior file at the destination, a download answered with
  status 500 removes the prior file, and a download that succeeds removes the file it
  has just written.
\<close>

theorem download_csv_destination_named_tmp:
  "dist_dest_path ''ds1'' demo_tmp_dist = demo_tmp_dest
   \<and> with_suffix demo_tmp_dest ''.tmp'' = Inr demo_tmp_dest
   \<and> files (world_with demo_tmp_dest ''previous contents'') demo_tmp_dest = Some ''previous contents''
   \<and> fst (download_csv (demo_env net_500) demo_url demo_tmp_dest
             (world_with demo_tmp_dest ''previous contents'')) = Inl (ClientResponseError 500)
   \<and> files (snd (download_csv (demo_env net_500) demo_url demo_tmp_dest
                    (world_with demo_tmp_dest ''previous contents''))) demo_tmp_dest = None
   \<and> fst (download_csv (demo_env (net_ok None None)) demo_url demo_tmp_dest
             (world_with demo_tmp_dest ''previous contents'')) = Inr ()
   \<and> files (snd (download_csv (demo_env (net_ok None None)) demo_url demo_tmp_dest
                    (world_with demo_tmp_dest ''previous contents''))) demo_tmp_dest = None"
  by code_simp

section \<open>Properties of the batch runner\<close>

lemma head_info_fst_indep: "fst (head_info ev url w) = fst (head_info ev url w0)"
  by (simp add: head_info_def split: sum.splits)

lemma healthy_fetch:
  assumes "healthy ev dataset_id d"
  shows "\<exists>entry w2. fetch_and_process ev (d_url d) (dist_filename d)
                       (dist_dest_path dataset_id d) info w1 = (Inr entry, w2)"
proof -
  let ?dest = "dist_dest_path dataset_id d"
  from assms obtain tmp resp where
    t: "with_suffix ?dest ''.tmp'' = Inr tmp" "tmp \<noteq> ?dest" "\<not> open_fails ev tmp"
       "\<not> replace_fails ev tmp" "\<not> mkdir_fails ev (path_parent ?dest)" "\<not> open_fails ev ?dest"
    and n: "net ev (GET (d_url d)) = Inr resp" "status resp < 400" "complete resp"
    by (auto simp: healthy_def Let_def split: sum.splits)
  let ?text = "write_chunks (chunks resp)"
  from assms n(1) obtain df body where
    r: "(case read_csv ev ?text of Inr df \<Rightarrow> Inr df | Inl e \<Rightarrow> read_csv_utf8 ev ?text) = Inr df"
    and c: "to_csv ev (headers_to_snakecase_df df) = Inr body"
    by (auto simp: healthy_def Let_def split: sum.splits)
  obtain w' where dl: "download_csv ev (d_url d) ?dest w1 = (Inr (), w')"
    and f: "files w' ?dest = Some ?text"
    using t n
    by (auto simp: download_csv_def download_body_def cleanup_tmp_def replace_file_def send_def
          Let_def)
  have rd1: "read_dest (read_csv ev) ?dest w' = read_csv ev ?text"
    by (simp add: read_dest_def f)
  have rd2: "read_dest (read_csv_utf8 ev) ?dest w' = read_csv_utf8 ev ?text"
    by (simp add: read_dest_def f)
  show ?thesis
  proof (cases "read_csv ev ?text")
    case (Inl e)
    with r have "read_csv_utf8 ev ?text = Inr df" by simp
    with Inl c t(6) show ?thesis by (simp add: fetch_and_process_def dl rd1 rd2 Let_def)
  next
    case (Inr x)
    with r have "x = df" by simp
    with Inr c t(6) show ?thesis by (simp add: fetch_and_process_def dl rd1 Let_def)
  qed
qed

lemma healthy_outcome:
  assumes "healthy ev dataset_id d"
  shows "fst (process_distribution ev dataset_id d st) \<noteq> Inr Failed
       \<and> (no_validators ev d \<longrightarrow> fst (process_distribution ev dataset_id d st) = Inr Processed)"
proof -
  obtain metadata w where st: "st = (metadata, w)" by (cases st)
  obtain info where i: "fst (head_info ev (d_url d) w) = Inr info"
    using head_info_returns by blast
  then have hi: "head_info ev (d_url d) w = (Inr info, snd (head_info ev (d_url d) w))"
    by (rule head_info_pair)
  obtain entry w2 where
    fp: "fetch_and_process ev (d_url d) (dist_filename d) (dist_dest_path dataset_id d) info
           (snd (head_info ev (d_url d) w)) = (Inr entry, w2)"
    using healthy_fetch [OF assms] by blast
  have nv: "no_validators ev d \<longrightarrow> \<not> truthy (v_etag info) \<and> \<not> truthy (v_last_modified info)"
    using i head_info_fst_indep [of ev "d_url d" w "\<lparr>files = Map.empty, requests = []\<rparr>"]
    by (simp add: no_validators_def)
  show ?thesis unfolding st
    using nv by (simp add: process_distribution_unfold [OF hi] fp Let_def)
qed

text \<open>
  C9: two distributions of one dataset whose URLs end in the same file name have the
  same destination and the same temporary file. The server of the first one never
  answers; every step of the second one succeeds, and on its own the second one is
  processed. In a batch of the two, when the first fails while the second is
  streaming, the \<open>finally\<close> clause of the first unlinks the temporary file of the
  second, the rename of the second then raises, and both end in \<open>Failed\<close>: the failing
  distribution has failed its sibling. When the first has returned before the second
  starts, or fails after the second has renamed its file, the second is processed.
\<close>

theorem failing_sibling_unlinks_shared_temporary:
  "dist_dest_path ''ds1'' demo_dist_2023 = dist_dest_path ''ds1'' demo_dist_2024
   \<and> with_suffix (dist_dest_path ''ds1'' demo_dist_2024) ''.tmp''
       = Inr (Path False [''data'', ''ds1'', ''data.tmp''])
   \<and> healthy (demo_env (net_one_down demo_url_2023)) ''ds1'' demo_dist_2024
   \<and> fst (process_distribution (demo_env (net_one_down demo_url_2023)) ''ds1'' demo_dist_2024
            ([], demo_world)) = Inr Processed
   \<and> outcomes (run_batch (demo_env (net_one_down demo_url_2023)) [0, 0, 0, 0, 0, 0]
        (start_batch [(''ds1'', demo_dist_2024)] [] empty_fsys))
       = [Some Processed]
   \<and> outcomes (run_batch (demo_env (net_one_down demo_url_2023)) [1, 1, 1, 1, 0, 0, 0, 0, 1, 1]
        (start_batch [(''ds1'', demo_dist_2023), (''ds1'', demo_dist_2024)] [] empty_fsys))
       = [Some Failed, Some Failed]
   \<and> outcomes (run_batch (demo_env (net_one_down demo_url_2023)) [0, 0, 0, 0, 1, 1, 1, 1, 1, 1]
        (start_batch [(''ds1'', demo_dist_2023), (''ds1'', demo_dist_2024)] [] empty_fsys))
       = [Some Failed, Some Processed]
   \<and> outcomes (run_batch (demo_env (net_one_down demo_url_2023)) [1, 1, 1, 1, 0, 0, 0, 1, 1, 0]
        (start_batch [(''ds1'', demo_dist_2023), (''ds1'', demo_dist_2024)] [] empty_fsys))
       = [Some Failed, Some Processed]"
  by code_simp

section \<open>Properties of the ledger persistence\<close>

lemma hex_digit_value: "k < 16 \<Longrightarrow> hex_value (hex_digit k) = Some k"
proof -
  have "\<forall>k\<in>set [0..<16]. hex_value (hex_digit k) = Some k" by code_simp
  then show "k < 16 \<Longrightarrow> hex_value (hex_digit k) = Some k" by simp
qed

lemma code_less_256: "code c < 256"
  by (simp add: code_def)

lemma char_of_code: "char_of (code c) = c"
  by (simp add: code_def)

lemma code_inject: "code a = code b \<Longrightarrow> a = b"
  by (metis char_of_code)

lemma ustr_inject: "ustr a = ustr b \<Longrightarrow> a = b"
proof (induction a arbitrary: b)
  case Nil
  then show ?case by (simp add: ustr_def)
next
  case (Cons x xs)
  then obtain y ys where b: "b = y # ys" by (cases b) (auto simp: ustr_def)
  with Cons.prems have "code x = code y" "ustr xs = ustr ys" by (simp_all add: ustr_def)
  with Cons.IH b show ?case by (simp add: code_inject)
qed

lemma hex_zero: "hex_value CHR ''0'' = Some 0"
  by code_simp

lemma hex4_escape:
  "hex4 (CHR ''0'' # CHR ''0'' # hex_digit (code c div 16) # hex_digit (code c mod 16) # t)
   = Some (code c, t)"
proof -
  have d: "code c div 16 < 16" using code_less_256 [of c] by simp
  have m: "code c mod 16 < 16" by simp
  show ?thesis
    by (simp add: hex4_def hex_zero hex_digit_value [OF d] hex_digit_value [OF m])
qed

lemma scan_unicode_escape:
  "scan_string (CHR 0x5C # CHR ''u'' # CHR ''0'' # CHR ''0'' # hex_digit (code c div 16)
                 # hex_digit (code c mod 16) # t)
   = add_char (code c) (scan_string t)"
  using code_less_256 [of c] by (simp add: hex4_escape)

lemma scan_escape_char: "scan_string (escape_char c @ t) = add_char (code c) (scan_string t)"
proof -
  consider (special) "c = CHR 0x22 \<or> c = CHR 0x5C \<or> c = CHR 0x0A \<or> c = CHR 0x0D
                      \<or> c = CHR 0x09 \<or> c = CHR 0x0C \<or> c = CHR 0x08"
    | (raw) "c \<noteq> CHR 0x22" "c \<noteq> CHR 0x5C" "32 \<le> code c \<and> code c \<le> 126"
    | (other) "c \<noteq> CHR 0x22" "c \<noteq> CHR 0x5C" "c \<noteq> CHR 0x0A" "c \<noteq> CHR 0x0D"
              "c \<noteq> CHR 0x09" "c \<noteq> CHR 0x0C" "c \<noteq> CHR 0x08"
              "\<not> (32 \<le> code c \<and> code c \<le> 126)"
    by blast
  then show ?thesis
  proof cases
    case special
    then show ?thesis by (auto simp: escape_char_def code_def)
  next
    case raw
    then have "escape_char c = [c]" by (auto simp: escape_char_def code_def)
    with raw show ?thesis by simp
  next
    case other
    then have "escape_char c = [CHR 0x5C, CHR ''u'', CHR ''0'', CHR ''0'',
            hex_digit (code c div 16), hex_digit (code c mod 16)]"
      by (simp add: escape_char_def)
    then show ?thesis using scan_unicode_escape [of c t] by simp
  qed
qed

lemma scan_string_escaped:
  "scan_string (concat (map escape_char s) @ CHR 0x22 # t) = Some (ustr s, t)"
  by (induction s) (simp_all add: scan_escape_char add_char_def ustr_def)

lemma scan_json_string:
  "json_string s @ t = CHR 0x22 # concat (map escape_char s) @ CHR 0x22 # t"
  by (simp add: json_string_def)

lemma code_digit_char: "k < 10 \<Longrightarrow> code (char_of (48 + k)) = 48 + k"
  by (simp add: code_def)

lemma show_nat_step:
  "show_nat n = (if n < 10 then [char_of (48 + n)] else show_nat (n div 10) @ [char_of (48 + n mod 10)])"
  by (rule show_nat.simps)

lemma show_nat_digits: "c \<in> set (show_nat n) \<Longrightarrow> is_digit c"
proof (induction n arbitrary: c rule: show_nat.induct)
  case (1 n)
  show ?case
  proof (cases "n < 10")
    case True
    with 1(2) have "c = char_of (48 + n)" by (subst (asm) show_nat_step) simp
    with True show ?thesis by (simp add: is_digit_def code_digit_char)
  next
    case False
    with 1(2) have "c \<in> set (show_nat (n div 10)) \<or> c = char_of (48 + n mod 10)"
      by (subst (asm) show_nat_step) auto
    then show ?thesis
    proof
      assume "c \<in> set (show_nat (n div 10))"
      with 1(1) False show ?thesis by simp
    next
      assume "c = char_of (48 + n mod 10)"
      then show ?thesis by (simp add: is_digit_def code_digit_char)
    qed
  qed
qed

lemma show_nat_not_Nil: "show_nat n \<noteq> []"
  by (subst show_nat_step) simp

lemma show_nat_value: "digits_value (show_nat n) = n"
proof (induction n rule: show_nat.induct)
  case (1 n)
  show ?case
  proof (cases "n < 10")
    case True
    then show ?thesis by (subst show_nat_step) (simp add: digits_value_def code_digit_char)
  next
    case False
    with 1 have "digits_value (show_nat (n div 10)) = n div 10"
      by simp
    with False show ?thesis
      by (subst show_nat_step) (simp add: digits_value_def code_digit_char)
  qed
qed

lemma show_nat_zero: "show_nat 0 = [CHR ''0'']"
proof -
  have "char_of (48 :: nat) = CHR ''0''" by code_simp
  then show ?thesis by (subst show_nat_step) simp
qed

lemma show_nat_no_leading_zero: "0 < n \<Longrightarrow> hd (show_nat n) \<noteq> CHR ''0''"
proof (induction n rule: show_nat.induct)
  case (1 n)
  show ?case
  proof (cases "n < 10")
    case True
    have "code (hd (show_nat n)) = 48 + n"
      using True by (subst show_nat_step) (simp add: code_digit_char)
    moreover have "code CHR ''0'' = 48" by (simp add: code_def)
    ultimately show ?thesis using 1(2) by auto
  next
    case False
    then have "0 < n div 10" by simp
    with 1(1) False have "hd (show_nat (n div 10)) \<noteq> CHR ''0''" by simp
    moreover have "hd (show_nat n) = hd (show_nat (n div 10))"
      using False show_nat_not_Nil [of "n div 10"] by (subst show_nat_step) simp
    ultimately show ?thesis by simp
  qed
qed

lemma show_nat_hd: "\<exists>c cs. show_nat n = c # cs \<and> is_digit c"
proof -
  obtain c cs where e: "show_nat n = c # cs" using show_nat_not_Nil [of n] by (cases "show_nat n") auto
  then have "c \<in> set (show_nat n)" by simp
  then have "is_digit c" by (rule show_nat_digits)
  with e show ?thesis by blast
qed

lemma follows_Cons: "follows t \<Longrightarrow> \<exists>c r. t = c # r \<and> (c = CHR '','' \<or> c = CHR 0x0A)"
  by (cases t) (auto simp: follows_def)

lemma sep_not_digit: "\<not> is_digit CHR '',''" "\<not> is_digit CHR 0x0A"
  by (simp_all add: is_digit_def code_def)

lemma span_int_show_nat:
  assumes "follows t"
  shows "span_int (show_nat n @ t) = Some (show_nat n, t)"
proof -
  obtain x r where t: "t = x # r" and x: "x = CHR '','' \<or> x = CHR 0x0A"
    using follows_Cons [OF assms] by blast
  have nd: "\<not> is_digit x" using x sep_not_digit by auto
  show ?thesis
  proof (cases "n = 0")
    case True
    then show ?thesis by (simp add: show_nat_zero span_int_def)
  next
    case False
    obtain c cs where e: "show_nat n = c # cs" and d: "is_digit c" using show_nat_hd by blast
    have "hd (show_nat n) \<noteq> CHR ''0''" using False show_nat_no_leading_zero [of n] by simp
    then have c0: "c \<noteq> CHR ''0''" by (simp add: e)
    have all: "\<forall>y\<in>set cs. is_digit y" using show_nat_digits [of _ n] by (simp add: e)
    have tw: "takeWhile is_digit (cs @ t) = cs"
      using all nd by (simp add: t)
    have dw: "dropWhile is_digit (cs @ t) = t"
      using all nd by (simp add: t)
    show ?thesis using c0 d by (simp add: e span_int_def tw dw)
  qed
qed

lemma span_frac_follows: "follows t \<Longrightarrow> span_frac t = ([], t)"
  by (auto simp: span_frac_def follows_def split: list.splits)

lemma span_exp_follows: "follows t \<Longrightarrow> span_exp t = ([], t)"
  by (auto simp: span_exp_def follows_def split: list.splits)

lemma digit_not_minus: "is_digit c \<Longrightarrow> c \<noteq> CHR ''-''"
  by (auto simp: is_digit_def code_def)

lemma scan_number_show_nat:
  assumes "follows t"
  shows "scan_number (show_nat n @ t) = Some (JInt (int n), t)"
proof -
  obtain c cs where e: "show_nat n = c # cs" and d: "is_digit c" using show_nat_hd by blast
  have m: "c \<noteq> CHR ''-''" using d by (rule digit_not_minus)
  have "scan_number ((c # cs) @ t) = Some (JInt (int (digits_value (c # cs))), t)"
    using m span_int_show_nat [OF assms, of n] span_frac_follows [OF assms]
      span_exp_follows [OF assms]
    by (simp add: scan_number_def e)
  then show ?thesis using show_nat_value [of n] by (simp add: e)
qed

lemma digit_not_opening:
  assumes "is_digit c"
  shows "c \<noteq> CHR 0x22" "c \<noteq> CHR ''{''" "c \<noteq> CHR ''[''" "c \<noteq> CHR ''n''" "c \<noteq> CHR ''t''"
    "c \<noteq> CHR ''f''" "c \<noteq> CHR ''N''" "c \<noteq> CHR ''I''" "c \<noteq> CHR ''-''"
  using assms by (auto simp: is_digit_def code_def)

lemma scan_value_digit:
  assumes "is_digit c"
  shows "scan_value (Suc f) (c # cs) = scan_number (c # cs)"
  using digit_not_opening [OF assms] by simp

lemma scan_show_scalar:
  assumes "follows t"
  shows "scan_value (Suc f) (show_scalar v @ t) = Some (scalar_json v, t)"
proof (cases v)
  case SNull
  then show ?thesis by (simp add: show_scalar_def scalar_json_def)
next
  case (SInt n)
  obtain c cs where e: "show_nat n = c # cs" and d: "is_digit c" using show_nat_hd by blast
  have "scan_value (Suc f) (show_nat n @ t) = scan_number (show_nat n @ t)"
    using scan_value_digit [OF d, of f "cs @ t"] by (simp add: e)
  then show ?thesis
    using SInt by (simp add: show_scalar_def scalar_json_def scan_number_show_nat [OF assms])
next
  case (SStr s)
  then show ?thesis
    by (simp add: show_scalar_def scalar_json_def scan_json_string scan_string_escaped)
qed

lemma skip_ws_indent: "set ind \<subseteq> {CHR '' ''} \<Longrightarrow> skip_ws (ind @ s) = skip_ws s"
proof -
  assume "set ind \<subseteq> {CHR '' ''}"
  then have "\<forall>c\<in>set ind. is_json_space c" by (auto simp: is_json_space_def)
  then show ?thesis by (simp only: skip_ws_def dropWhile_append2)
qed

lemma skip_ws_newline: "skip_ws (CHR 0x0A # s) = skip_ws s"
  by (simp add: skip_ws_def is_json_space_def)

lemma skip_ws_blank: "skip_ws (CHR '' '' # s) = skip_ws s"
  by (simp add: skip_ws_def is_json_space_def)

lemma skip_ws_stop: "\<not> is_json_space c \<Longrightarrow> skip_ws (c # s) = c # s"
  by (simp add: skip_ws_def)

lemma skip_ws_Nil: "skip_ws [] = []"
  by (simp add: skip_ws_def)

lemma not_space_chars:
  "\<not> is_json_space CHR 0x22" "\<not> is_json_space CHR '':''" "\<not> is_json_space CHR '',''"
  "\<not> is_json_space CHR ''{''" "\<not> is_json_space CHR ''}''" "\<not> is_json_space CHR ''n''"
  by (simp_all add: is_json_space_def)

lemma digit_not_space: "is_digit c \<Longrightarrow> \<not> is_json_space c"
  by (auto simp: is_digit_def is_json_space_def code_def)

lemma show_scalar_hd: "\<exists>c cs. show_scalar v = c # cs \<and> \<not> is_json_space c"
proof (cases v)
  case SNull
  then show ?thesis by (simp add: show_scalar_def not_space_chars)
next
  case (SInt n)
  then show ?thesis using show_nat_hd [of n] digit_not_space by (auto simp: show_scalar_def)
next
  case (SStr s)
  then show ?thesis by (simp add: show_scalar_def json_string_def not_space_chars)
qed

lemma expect_Cons: "expect c (x # s) = (if x = c then Some s else None)"
  by (simp add: expect_def)

lemma expect_hit: "expect c (c # s) = Some s"
  by (simp add: expect_def)

lemma show_members_hd:
  "ms \<noteq> [] \<Longrightarrow> \<exists>cs. show_members ind cl sv ms = CHR 0x22 # cs"
  by (induction ind cl sv ms rule: show_members.induct) (simp_all add: json_string_def)

lemma scan_show_members:
  assumes pv: "\<And>v t. v \<in> snd ` set ms \<Longrightarrow> follows t \<Longrightarrow> pv (sv v @ t) = Some (g v, t)"
    and sv: "\<And>v. v \<in> snd ` set ms \<Longrightarrow> \<exists>c cs. sv v = c # cs \<and> \<not> is_json_space c"
    and "ms \<noteq> []" and "length ms \<le> fuel"
    and ind: "set ind \<subseteq> {CHR '' ''}" and cl: "set cl \<subseteq> {CHR '' ''}"
  shows "scan_members pv fuel (show_members ind cl sv ms @ rest)
         = Some (map (\<lambda>(k, v). (ustr k, g v)) ms, rest)"
  using assms(1-4)
proof (induction ms arbitrary: fuel)
  case Nil
  then show ?case by simp
next
  case (Cons m ms)
  obtain k v where m: "m = (k, v)" by (cases m)
  obtain f where fuel: "fuel = Suc f" using Cons.prems(4) by (cases fuel) auto
  have vin: "v \<in> snd ` set (m # ms)" by (simp add: m)
  obtain c cs where svv: "sv v = c # cs" "\<not> is_json_space c" using Cons.prems(2) [OF vin] by blast
  show ?case
  proof (cases ms)
    case Nil
    let ?X = "[CHR 0x0A] @ cl @ ''}'' @ rest"
    have "follows ?X" by (simp add: follows_def)
    then have p: "pv (sv v @ ?X) = Some (g v, ?X)" using Cons.prems(1) [OF vin, of ?X] by simp
    have sk: "skip_ws ?X = CHR ''}'' # rest"
      using skip_ws_indent [OF cl, of "''}'' @ rest"]
      by (simp add: skip_ws_newline skip_ws_stop not_space_chars)
    have e: "show_members ind cl sv (m # ms) @ rest
          = CHR 0x22 # concat (map escape_char k) @ CHR 0x22 # (CHR '':'' # CHR '' '' # (sv v @ ?X))"
      by (simp add: Nil m json_string_def)
    have "scan_members pv (Suc f)
            (CHR 0x22 # concat (map escape_char k) @ CHR 0x22 # (CHR '':'' # CHR '' '' # (sv v @ ?X)))
          = Some ([(ustr k, g v)], rest)"
    proof -
      have 1: "skip_ws (CHR '':'' # CHR '' '' # (sv v @ ?X)) = CHR '':'' # CHR '' '' # (sv v @ ?X)"
        by (simp add: skip_ws_stop not_space_chars)
      have 2: "skip_ws (CHR '' '' # (sv v @ ?X)) = sv v @ ?X"
        by (simp add: skip_ws_blank svv skip_ws_stop)
      have 3: "CHR ''}'' \<noteq> CHR '',''" by simp
      show ?thesis
        by (simp only: scan_members.simps expect_hit if_True if_False scan_string_escaped
              option.case prod.case 1 2 p sk list.case 3 simp_thms)
    qed
    then show ?thesis unfolding e fuel by (simp add: m Nil)
  next
    case (Cons m' ms')
    let ?R = "show_members ind cl sv ms @ rest"
    let ?X = "'','' @ [CHR 0x0A] @ ind @ ?R"
    have "follows ?X" by (simp add: follows_def)
    then have p: "pv (sv v @ ?X) = Some (g v, ?X)" using Cons.prems(1) [OF vin, of ?X] by simp
    have ne: "ms \<noteq> []" using Cons by simp
    obtain q where q: "show_members ind cl sv ms = CHR 0x22 # q"
      using show_members_hd [OF ne] by blast
    have sk: "skip_ws ([CHR 0x0A] @ ind @ ?R) = ?R"
      using skip_ws_indent [OF ind, of ?R]
      by (simp add: skip_ws_newline q skip_ws_stop not_space_chars)
    have ih: "scan_members pv f ?R = Some (map (\<lambda>(k, v). (ustr k, g v)) ms, rest)"
    proof (rule Cons.IH)
      show "\<And>v t. v \<in> snd ` set ms \<Longrightarrow> follows t \<Longrightarrow> pv (sv v @ t) = Some (g v, t)"
        using Cons.prems(1) by auto
      show "\<And>v. v \<in> snd ` set ms \<Longrightarrow> \<exists>c cs. sv v = c # cs \<and> \<not> is_json_space c"
        using Cons.prems(2) by auto
      show "ms \<noteq> []" by (rule ne)
      show "length ms \<le> f" using Cons.prems(4) fuel by simp
    qed
    have e: "show_members ind cl sv (m # ms) @ rest
          = CHR 0x22 # concat (map escape_char k) @ CHR 0x22 # (CHR '':'' # CHR '' '' # (sv v @ ?X))"
      by (simp add: Cons m json_string_def)
    have "scan_members pv (Suc f)
            (CHR 0x22 # concat (map escape_char k) @ CHR 0x22 # (CHR '':'' # CHR '' '' # (sv v @ ?X)))
          = Some ((ustr k, g v) # map (\<lambda>(k, v). (ustr k, g v)) ms, rest)"
    proof -
      have 1: "skip_ws (CHR '':'' # CHR '' '' # (sv v @ ?X)) = CHR '':'' # CHR '' '' # (sv v @ ?X)"
        by (simp add: skip_ws_stop not_space_chars)
      have 2: "skip_ws (CHR '' '' # (sv v @ ?X)) = sv v @ ?X"
        by (simp add: skip_ws_blank svv skip_ws_stop)
      have 3: "skip_ws ?X = CHR '','' # ([CHR 0x0A] @ ind @ ?R)"
        by (simp add: skip_ws_stop not_space_chars)
      show ?thesis
        by (simp only: scan_members.simps expect_hit if_True scan_string_escaped option.case
              prod.case 1 2 p 3 list.case sk ih simp_thms)
    qed
    then show ?thesis unfolding e fuel by (simp add: m)
  qed
qed

lemma scan_show_object:
  assumes pv: "\<And>v t. v \<in> snd ` set ms \<Longrightarrow> follows t \<Longrightarrow> pv (sv v @ t) = Some (g v, t)"
    and sv: "\<And>v. v \<in> snd ` set ms \<Longrightarrow> \<exists>c cs. sv v = c # cs \<and> \<not> is_json_space c"
    and fuel: "length ms \<le> fuel"
    and ind: "set ind \<subseteq> {CHR '' ''}" and cl: "set cl \<subseteq> {CHR '' ''}"
  shows "scan_object pv fuel (show_object ind cl sv ms @ rest)
         = Some (map (\<lambda>(k, v). (ustr k, g v)) ms, rest)"
proof (cases "ms = []")
  case True
  then show ?thesis
    by (simp add: show_object_def scan_object_def expect_hit skip_ws_stop not_space_chars)
next
  case False
  let ?R = "show_members ind cl sv ms @ rest"
  obtain q where q: "show_members ind cl sv ms = CHR 0x22 # q"
    using show_members_hd [OF False] by blast
  have sk: "skip_ws ([CHR 0x0A] @ ind @ ?R) = ?R"
    using skip_ws_indent [OF ind, of ?R]
    by (simp add: skip_ws_newline q skip_ws_stop not_space_chars)
  have ex: "expect CHR ''}'' ?R = None" by (simp add: q expect_def)
  have sm: "scan_members pv fuel ?R = Some (map (\<lambda>(k, v). (ustr k, g v)) ms, rest)"
    using pv sv False fuel ind cl by (rule scan_show_members)
  have e: "show_object ind cl sv ms @ rest = CHR ''{'' # ([CHR 0x0A] @ ind @ ?R)"
    using False by (simp add: show_object_def)
  show ?thesis
    unfolding e by (simp only: scan_object_def expect_hit option.case sk ex sm)
qed

lemma show_object_Cons: "\<exists>cs. show_object ind cl sv ms = CHR ''{'' # cs"
  by (simp add: show_object_def)

lemma show_object_hd: "\<exists>c cs. show_object ind cl sv ms = c # cs \<and> \<not> is_json_space c"
  by (simp add: show_object_def not_space_chars)

lemma length_show_members:
  "length ms \<le> length (show_members ind cl sv ms)"
  by (induction ind cl sv ms rule: show_members.induct) simp_all

lemma length_show_object: "length ms \<le> length (show_object ind cl sv ms)"
  using length_show_members [of ms ind cl sv] by (simp add: show_object_def)

lemma update_fresh: "k \<notin> fst ` set al \<Longrightarrow> AList.update k v al = al @ [(k, v)]"
  by (induction al) auto

lemma foldl_update_distinct:
  "distinct (map fst (acc @ ps))
   \<Longrightarrow> foldl (\<lambda>acc (k, v). AList.update k v acc) acc ps = acc @ ps"
proof (induction ps arbitrary: acc)
  case Nil
  then show ?case by simp
next
  case (Cons p ps)
  obtain k v where p: "p = (k, v)" by (cases p)
  from Cons.prems have fresh: "k \<notin> fst ` set acc" by (auto simp: p)
  from Cons.prems have "distinct (map fst ((acc @ [(k, v)]) @ ps))" by (simp add: p)
  then have "foldl (\<lambda>acc (k, v). AList.update k v acc) (acc @ [(k, v)]) ps = (acc @ [(k, v)]) @ ps"
    by (rule Cons.IH)
  then show ?case by (simp add: p update_fresh [OF fresh])
qed

lemma dict_of_distinct: "distinct (map fst ps) \<Longrightarrow> dict_of ps = ps"
  using foldl_update_distinct [of "[]" ps] by (simp add: dict_of_def)

lemma distinct_ustr_keys:
  "distinct (map fst ms) \<Longrightarrow> distinct (map fst (map (\<lambda>(k, v). (ustr k, g v)) ms))"
proof -
  assume d: "distinct (map fst ms)"
  have e: "map fst (map (\<lambda>(k, v). (ustr k, g v)) ms) = map ustr (map fst ms)"
    by (induction ms) auto
  have i: "inj_on ustr (set (map fst ms))"
    by (rule inj_onI) (rule ustr_inject)
  have "distinct (map ustr (map fst ms))"
    using d i by (simp only: distinct_map simp_thms)
  then show ?thesis by (simp only: e)
qed

lemma scan_entry:
  assumes "follows t"
  shows "scan_value (Suc (Suc f)) (show_object ''    '' ''  '' show_scalar (entry_fields en) @ t)
         = Some (entry_json en, t)"
proof -
  let ?fs = "entry_fields en"
  let ?s = "show_object ''    '' ''  '' show_scalar ?fs @ t"
  obtain cs where c: "show_object ''    '' ''  '' show_scalar ?fs = CHR ''{'' # cs"
    using show_object_Cons by blast
  have so: "scan_object (scan_value (Suc f)) (length ?s) ?s
            = Some (map (\<lambda>(k, v). (ustr k, scalar_json v)) ?fs, t)"
  proof (rule scan_show_object)
    show "\<And>v t. v \<in> snd ` set ?fs \<Longrightarrow> follows t
            \<Longrightarrow> scan_value (Suc f) (show_scalar v @ t) = Some (scalar_json v, t)"
      by (rule scan_show_scalar)
    show "\<And>v. v \<in> snd ` set ?fs \<Longrightarrow> \<exists>c cs. show_scalar v = c # cs \<and> \<not> is_json_space c"
      using show_scalar_hd by blast
    show "length ?fs \<le> length ?s"
      using length_show_object [of ?fs "''    ''" "''  ''" show_scalar] by simp
    show "set ''    '' \<subseteq> {CHR '' ''}" by simp
    show "set ''  '' \<subseteq> {CHR '' ''}" by simp
  qed
  have d: "dict_of (map (\<lambda>(k, v). (ustr k, scalar_json v)) ?fs)
           = map (\<lambda>(k, v). (ustr k, scalar_json v)) ?fs"
    by (rule dict_of_distinct, rule distinct_ustr_keys) (simp add: entry_fields_def)
  have "scan_value (Suc (Suc f)) (CHR ''{'' # (cs @ t))
        = (case scan_object (scan_value (Suc f)) (length (CHR ''{'' # (cs @ t))) (CHR ''{'' # (cs @ t)) of
             None \<Rightarrow> None
           | Some (ms, r) \<Rightarrow> Some (JObject (dict_of ms), r))"
    by simp
  then show ?thesis using so by (simp add: c d entry_json_def)
qed

lemma show_members_map:
  "show_members ind cl sv (map (\<lambda>(k, v). (k, h v)) ms) = show_members ind cl (\<lambda>v. sv (h v)) ms"
proof (induction ms rule: induct_list012)
  case 1
  show ?case by simp
next
  case (2 x)
  obtain k v where "x = (k, v)" by (cases x)
  then show ?case by simp
next
  case (3 x y zs)
  obtain k v where x: "x = (k, v)" by (cases x)
  obtain k' v' where y: "y = (k', v')" by (cases y)
  from 3(2) show ?case by (simp add: x y)
qed

lemma json_dumps_entries:
  "json_dumps meta
   = show_object ''  '' [] (\<lambda>en. show_object ''    '' ''  '' show_scalar (entry_fields en)) meta"
  by (simp add: json_dumps_def show_object_def show_members_map)

lemma scan_value_object:
  "scan_value (Suc f) (CHR ''{'' # cs)
   = (case scan_object (scan_value f) (Suc (length cs)) (CHR ''{'' # cs) of
        None \<Rightarrow> None
      | Some (ms, r) \<Rightarrow> Some (JObject (dict_of ms), r))"
  by simp

lemma scan_ledger_text:
  assumes "distinct (map fst meta)"
    and s: "s = show_object ''  '' [] (\<lambda>en. show_object ''    '' ''  '' show_scalar (entry_fields en)) meta"
  shows "scan_value (Suc (Suc (Suc f))) s = Some (ledger_json meta, [])"
proof -
  let ?sv = "\<lambda>en. show_object ''    '' ''  '' show_scalar (entry_fields en)"
  obtain cs where c: "s = CHR ''{'' # cs" unfolding s using show_object_Cons by blast
  have "scan_object (scan_value (Suc (Suc f))) (length s) (show_object ''  '' [] ?sv meta @ [])
        = Some (map (\<lambda>(k, en). (ustr k, entry_json en)) meta, [])"
  proof (rule scan_show_object)
    show "\<And>v t. v \<in> snd ` set meta \<Longrightarrow> follows t
            \<Longrightarrow> scan_value (Suc (Suc f)) (?sv v @ t) = Some (entry_json v, t)"
      by (rule scan_entry)
    show "\<And>v. v \<in> snd ` set meta \<Longrightarrow> \<exists>c cs. ?sv v = c # cs \<and> \<not> is_json_space c"
      using show_object_hd by blast
    show "length meta \<le> length s" unfolding s by (rule length_show_object)
    show "set ''  '' \<subseteq> {CHR '' ''}" by simp
    show "set [] \<subseteq> {CHR '' ''}" by simp
  qed
  then have so: "scan_object (scan_value (Suc (Suc f))) (Suc (length cs)) (CHR ''{'' # cs)
        = Some (map (\<lambda>(k, en). (ustr k, entry_json en)) meta, [])"
    unfolding s [symmetric] by (simp only: append_Nil2 c length_Cons)
  have d: "dict_of (map (\<lambda>(k, en). (ustr k, entry_json en)) meta)
           = map (\<lambda>(k, en). (ustr k, entry_json en)) meta"
    by (rule dict_of_distinct, rule distinct_ustr_keys, rule assms)
  show ?thesis
    unfolding c by (simp only: scan_value_object so option.case prod.case d ledger_json_def)
qed

lemma show_object_long: "2 \<le> length (show_object ind cl sv ms)"
proof (cases "ms = []")
  case True
  then show ?thesis by (simp add: show_object_def)
next
  case False
  then show ?thesis by (simp add: show_object_def)
qed

lemma json_roundtrip:
  assumes "distinct (map fst meta)"
  shows "json_loads (json_dumps meta) = Inr (ledger_json meta)"
proof -
  define s where "s = show_object ''  '' [] (\<lambda>en. show_object ''    '' ''  '' show_scalar (entry_fields en)) meta"
  obtain cs where c: "s = CHR ''{'' # cs" unfolding s_def using show_object_Cons by blast
  have sk: "skip_ws s = s" unfolding c by (rule skip_ws_stop) (rule not_space_chars)
  have "2 \<le> length s" unfolding s_def by (rule show_object_long)
  then obtain f where f: "length s = Suc (Suc f)"
    by (cases "length s"; cases "length s - 1") auto
  have "scan_value (Suc (length s)) (skip_ws s) = Some (ledger_json meta, [])"
    unfolding f sk using assms s_def by (rule scan_ledger_text)
  then have "json_loads s = Inr (ledger_json meta)"
    by (simp only: json_loads_def option.case prod.case skip_ws_Nil if_True simp_thms)
  then show ?thesis by (simp only: json_dumps_entries s_def)
qed

text \<open>Distinct ledgers are distinct dictionaries.\<close>

lemma scalar_json_inject: "scalar_json a = scalar_json b \<Longrightarrow> a = b"
  by (cases a; cases b) (auto simp: scalar_json_def dest: ustr_inject)

lemma opt_scalar_inject: "opt_scalar a = opt_scalar b \<Longrightarrow> a = b"
  by (cases a; cases b) (auto simp: opt_scalar_def)

lemma entry_json_inject:
  assumes "entry_json a = entry_json b"
  shows "a = b"
proof -
  from assms have "map snd (map (\<lambda>(k, v). (ustr k, scalar_json v)) (entry_fields a))
                 = map snd (map (\<lambda>(k, v). (ustr k, scalar_json v)) (entry_fields b))"
    by (simp add: entry_json_def)
  then have "e_url a = e_url b \<and> e_filename a = e_filename b
             \<and> e_last_modified a = e_last_modified b \<and> e_etag a = e_etag b
             \<and> e_downloaded_at a = e_downloaded_at b \<and> e_rows a = e_rows b \<and> e_cols a = e_cols b"
    by (auto simp: entry_fields_def dest!: scalar_json_inject opt_scalar_inject)
  then show ?thesis by simp
qed

lemma ledger_json_inject: "ledger_json a = ledger_json b \<Longrightarrow> a = b"
proof (induction a arbitrary: b)
  case Nil
  then show ?case by (simp add: ledger_json_def)
next
  case (Cons x xs)
  then obtain y ys where b: "b = y # ys" by (cases b) (auto simp: ledger_json_def)
  obtain k en where x: "x = (k, en)" by (cases x)
  obtain k' en' where y: "y = (k', en')" by (cases y)
  from Cons.prems have "ustr k = ustr k'" "entry_json en = entry_json en'"
    "ledger_json xs = ledger_json ys"
    by (simp_all add: ledger_json_def b x y)
  with Cons.IH show ?case by (simp add: b x y ustr_inject entry_json_inject)
qed

text \<open>A file that holds valid JSON is loaded as the value it denotes, whether or not that
  is a dictionary of entries; a missing file and a text that is not JSON give the empty
  dictionary.\<close>

lemma load_metadata_values:
  "load_metadata (world_with METADATA_FILE ''null'') = JNull
   \<and> load_metadata (world_with METADATA_FILE ''[]'') = JArray []
   \<and> load_metadata (world_with METADATA_FILE
         [CHR ''{'', CHR 0x22, CHR ''k'', CHR 0x22, CHR '':'', CHR '' '', CHR ''n'', CHR ''u'',
          CHR ''l'', CHR ''l'', CHR ''}''])
       = JObject [(ustr ''k'', JNull)]
   \<and> load_metadata (world_with METADATA_FILE ''{'') = JObject []
   \<and> load_metadata demo_world = JObject []"
  by code_simp

text \<open>
  C8: saving a ledger and loading it at once gives the ledger back: what is loaded is
  the dictionary that the ledger is. The ledger is a dictionary, so its keys are
  distinct; the save is one that returned.
\<close>

theorem ledger_roundtrip:
  assumes "distinct (map fst meta)" and "save_metadata ev meta w = (Inr (), w')"
  shows "load_metadata w' = ledger_json meta"
proof -
  from assms(2) have "files w' METADATA_FILE = Some (json_dumps meta)"
    by (auto simp: save_metadata_def split: if_splits)
  then show ?thesis by (simp add: load_metadata_def json_roundtrip [OF assms(1)])
qed

text \<open>Witness for C8: the ledger with one entry for the demonstration URL, saved into the
  empty world.\<close>

theorem ledger_roundtrip_witness:
  "distinct (map fst (demo_ledger (Some ''v1'') None))
   \<and> fst (save_metadata (demo_env net_down) (demo_ledger (Some ''v1'') None) demo_world) = Inr ()
   \<and> load_metadata (snd (save_metadata (demo_env net_down) (demo_ledger (Some ''v1'') None)
                              demo_world))
       = ledger_json (demo_ledger (Some ''v1'') None)"
proof -
  let ?r = "save_metadata (demo_env net_down) (demo_ledger (Some ''v1'') None) demo_world"
  have a: "distinct (map fst (demo_ledger (Some ''v1'') None))" by (simp add: demo_ledger_def)
  have b: "fst ?r = Inr ()" by (simp add: save_metadata_def demo_env_def)
  then have "?r = (Inr (), snd ?r)" by (metis prod.collapse)
  from ledger_roundtrip [OF a this] a b show ?thesis by simp
qed

end
